theory Spec2Isabelle
  imports Complex_Main "HOL-Library.Multiset" "HOL-Library.AList"
begin

section \<open>JavaScript strings\<close>

text \<open>
  A string is a list of characters; one \<^typ>\<open>char\<close> stands for one code unit in the
  Latin-1 range. The white space of \<open>String.prototype.trim\<close> and of the regular
  expression class \<open>\s\<close> in that range is TAB, LF, VT, FF, CR, SPACE and NBSP; the
  remaining Unicode space characters lie outside the character type.
\<close>

definition LF :: char where "LF = CHR 0x0A"
definition CR :: char where "CR = CHR 0x0D"
definition TAB :: char where "TAB = CHR 0x09"
definition SPACE :: char where "SPACE = CHR 0x20"

definition is_space :: "char \<Rightarrow> bool" where
  "is_space c \<longleftrightarrow>
     c \<in> set [CHR 0x09, CHR 0x0A, CHR 0x0B, CHR 0x0C, CHR 0x0D, CHR 0x20, CHR 0xA0]"

definition trim :: "string \<Rightarrow> string" where
  "trim s = rev (dropWhile is_space (rev (dropWhile is_space s)))"

fun startsWith :: "string \<Rightarrow> string \<Rightarrow> bool" where
  "startsWith s [] = True"
| "startsWith [] (p # ps) = False"
| "startsWith (c # cs) (p # ps) = (c = p \<and> startsWith cs ps)"

text \<open>\<open>s.includes(p)\<close>: \<open>p\<close> occurs in \<open>s\<close> as a contiguous substring.\<close>

fun js_includes :: "string \<Rightarrow> string \<Rightarrow> bool" where
  "js_includes [] p = (p = [])"
| "js_includes (c # cs) p = (startsWith (c # cs) p \<or> js_includes cs p)"

text \<open>Decimal rendering of a non-negative integer, as template literals do.\<close>

definition digit :: "nat \<Rightarrow> char" where
  "digit d = ''0123456789'' ! d"

fun show_nat :: "nat \<Rightarrow> string" where
  "show_nat n = (if n < 10 then [digit n] else show_nat (n div 10) @ [digit (n mod 10)])"

declare show_nat.simps [simp del]

text \<open>\<open>s.split("\n")\<close>: the pieces between line feeds; never the empty list.\<close>

fun split_lines_acc :: "string \<Rightarrow> string \<Rightarrow> string list" where
  "split_lines_acc cur [] = [rev cur]"
| "split_lines_acc cur (c # cs) =
     (if c = LF then rev cur # split_lines_acc [] cs else split_lines_acc (c # cur) cs)"

definition split_lines :: "string \<Rightarrow> string list" where
  "split_lines s = split_lines_acc [] s"

text \<open>
  \<open>s.split(/\s+/)\<close>: the pieces between maximal runs of white space. A leading or a
  trailing run yields an empty first or last piece, and the empty string yields one empty
  piece. The flag says that the previous character belonged to a separator.
\<close>

fun split_ws_acc :: "bool \<Rightarrow> string \<Rightarrow> string \<Rightarrow> string list" where
  "split_ws_acc insep cur [] = [rev cur]"
| "split_ws_acc insep cur (c # cs) =
     (if is_space c
      then (if insep then split_ws_acc True [] cs else rev cur # split_ws_acc True [] cs)
      else split_ws_acc False (c # cur) cs)"

definition split_ws :: "string \<Rightarrow> string list" where
  "split_ws s = split_ws_acc False [] s"

text \<open>\<open>words.join(" ")\<close>.\<close>

fun join_space :: "string list \<Rightarrow> string" where
  "join_space [] = []"
| "join_space [w] = w"
| "join_space (w # v # ws) = w @ [SPACE] @ join_space (v # ws)"

text \<open>
  \<open>xs.slice(start, end)\<close>: a negative index counts from the end of the array, and both
  indices are clamped to the array.
\<close>

definition js_slice :: "'a list \<Rightarrow> int \<Rightarrow> int \<Rightarrow> 'a list" where
  "js_slice xs start stop =
     (let len = int (length xs);
          k = (if start < 0 then max (len + start) 0 else min start len);
          final = (if stop < 0 then max (len + stop) 0 else min stop len)
      in take (nat (final - k)) (drop (nat k) xs))"

section \<open>Double-precision numbers\<close>

text \<open>
  The source computes with IEEE doubles. A non-negative double is modelled by its exact
  value, a ratio of two natural numbers, and \<open>double_ratio a b\<close> is the double nearest to
  \<open>a / b\<close>: the ratio is scaled by a power of two until it lies between \<open>2^52\<close> and
  \<open>2^53\<close>, rounded to the nearest integer, the even one at a tie, and scaled back. An
  integer below \<open>2^53\<close> is its own double. The exponent is unbounded: overflow and
  subnormal numbers, which no value of this program reaches, are left out.
\<close>

definition two52 :: nat where "two52 = 2 ^ 52"
definition two53 :: nat where "two53 = 2 ^ 53"

function scale_up :: "nat \<Rightarrow> nat \<Rightarrow> nat \<Rightarrow> nat \<times> nat" where
  "scale_up a b s = (if 0 < a \<and> a < b * two52 then scale_up (2 * a) b (Suc s) else (a, s))"
  by pat_completeness auto
termination
proof (relation "measure (\<lambda>(a, b, s). b * two52 - a)")
  show "wf (measure (\<lambda>(a, b, s). b * two52 - a))" by simp
next
  fix a b s :: nat
  assume "0 < a \<and> a < b * two52"
  then have "b * two52 - 2 * a < b * two52 - a" by linarith
  then show "((2 * a, b, Suc s), a, b, s) \<in> measure (\<lambda>(a, b, s). b * two52 - a)"
    by simp
qed

function scale_down :: "nat \<Rightarrow> nat \<Rightarrow> nat \<Rightarrow> nat \<times> nat" where
  "scale_down a b t = (if 0 < b \<and> b * two53 \<le> a then scale_down a (2 * b) (Suc t) else (b, t))"
  by pat_completeness auto
termination
proof (relation "measure (\<lambda>(a, b, t). Suc a - b * two53)")
  show "wf (measure (\<lambda>(a, b, t). Suc a - b * two53))" by simp
next
  fix a b t :: nat
  assume h: "0 < b \<and> b * two53 \<le> a"
  have "0 < two53" by (simp add: two53_def)
  then have "0 < b * two53" using h by simp
  moreover have "2 * b * two53 = b * two53 + b * two53" by simp
  ultimately have "Suc a - 2 * b * two53 < Suc a - b * two53" using h by linarith
  then show "((a, 2 * b, Suc t), a, b, t) \<in> measure (\<lambda>(a, b, t). Suc a - b * two53)"
    by simp
qed

declare scale_up.simps [simp del] scale_down.simps [simp del]

text \<open>The integer nearest to \<open>a / b\<close>, the even one when two are equally near.\<close>

definition round_half_even :: "nat \<Rightarrow> nat \<Rightarrow> nat" where
  "round_half_even a b =
     (let q = a div b; r = a mod b
      in if 2 * r < b then q
         else if 2 * r > b then q + 1
         else if even q then q else q + 1)"

definition double_ratio :: "nat \<Rightarrow> nat \<Rightarrow> nat \<times> nat" where
  "double_ratio a b =
     (let (a', s) = scale_up a b 0;
          (b', t) = scale_down a' b 0;
          m = round_half_even a' b'
      in (m * 2 ^ t, 2 ^ s))"

text \<open>
  \<open>x.toFixed(1)\<close> for the double \<open>x = n / d\<close>: the integer \<open>t\<close> for which \<open>t / 10\<close> is
  nearest to \<open>x\<close>, the larger one when two are equally near.
\<close>

definition tenths :: "nat \<Rightarrow> nat \<Rightarrow> nat" where
  "tenths n d = (20 * n + d) div (2 * d)"

section \<open>Credential and model rotation (src/services/aiService.js)\<close>

text \<open>
  A JavaScript \<open>Error\<close> object is modelled by its message. Reading an array at an index
  beyond its length yields \<open>undefined\<close>, modelled as \<open>None\<close>.
\<close>

datatype js_error = Error string

fun message :: "js_error \<Rightarrow> string" where
  "message (Error m) = m"

definition js_nth :: "'a list \<Rightarrow> nat \<Rightarrow> 'a option" where
  "js_nth xs i = (if i < length xs then Some (xs ! i) else None)"

text \<open>
  The module keeps two counters, \<open>currentKeyIndex\<close> and \<open>currentModelIndex\<close>, both
  starting at 0. They are the only mutable state of the rotator and are passed explicitly.
\<close>

record cursor =
  currentKeyIndex :: nat
  currentModelIndex :: nat

definition initial_cursor :: cursor where
  "initial_cursor = \<lparr>currentKeyIndex = 0, currentModelIndex = 0\<rparr>"

definition MODELS :: "string list" where
  "MODELS = [''gemini-2.5-flash-lite'', ''gemini-2.5-flash'', ''gemini-2.5-pro'',
             ''gemini-2.0-flash'']"

text \<open>
  \<open>getNextKeyAndModel\<close>: throws when no key is configured; otherwise reads the pair under
  the cursor and advances the model index, moving on to the next key (with wrap-around) once
  every model has been handed out for the current key.
\<close>

definition getNextKeyAndModel ::
  "string list \<Rightarrow> string list \<Rightarrow> cursor
     \<Rightarrow> js_error + ((string option \<times> string option) \<times> cursor)" where
  "getNextKeyAndModel keys models c =
     (if length keys = 0
      then Inl (Error ''No Gemini API keys configured. Please add your API keys to .env file.'')
      else
        let apiKey = js_nth keys (currentKeyIndex c);
            model = js_nth models (currentModelIndex c);
            c1 = c\<lparr>currentModelIndex := currentModelIndex c + 1\<rparr>;
            c2 = (if currentModelIndex c1 \<ge> length models
                  then c1\<lparr>currentModelIndex := 0,
                          currentKeyIndex := (currentKeyIndex c1 + 1) mod length keys\<rparr>
                  else c1)
        in Inr ((apiKey, model), c2))"

text \<open>\<open>n\<close> successive calls, collecting the pairs handed out.\<close>

fun next_calls ::
  "string list \<Rightarrow> string list \<Rightarrow> nat \<Rightarrow> cursor
     \<Rightarrow> js_error + ((string option \<times> string option) list \<times> cursor)" where
  "next_calls keys models 0 c = Inr ([], c)"
| "next_calls keys models (Suc n) c =
     (case getNextKeyAndModel keys models c of
        Inl e \<Rightarrow> Inl e
      | Inr (p, c') \<Rightarrow>
          (case next_calls keys models n c' of
             Inl e \<Rightarrow> Inl e
           | Inr (ps, c'') \<Rightarrow> Inr (p # ps, c'')))"

text \<open>The cursor that stands at position \<open>p\<close> of the key-major enumeration of all pairs.\<close>

definition cursor_at :: "nat \<Rightarrow> nat \<Rightarrow> cursor" where
  "cursor_at m p = \<lparr>currentKeyIndex = p div m, currentModelIndex = p mod m\<rparr>"

definition some_pair :: "string \<times> string \<Rightarrow> string option \<times> string option" where
  "some_pair p = (Some (fst p), Some (snd p))"

text \<open>
  \<open>API_KEYS\<close>: the four environment entries, of which the unset ones (\<open>None\<close>), the empty
  ones and the blank ones are dropped.
\<close>

definition API_KEYS :: "string option list \<Rightarrow> string list" where
  "API_KEYS env =
     List.map_filter
       (\<lambda>key. case key of
                 None \<Rightarrow> None
               | Some k \<Rightarrow> if k \<noteq> [] \<and> trim k \<noteq> [] then Some k else None)
       env"

section \<open>The resilient call (callGemini in src/services/aiService.js)\<close>

text \<open>
  What one \<open>fetch\<close> can give back. The promise is rejected (network failure) with a
  message, or it resolves to a response with a status and a body. The body is what
  \<open>response.json()\<close> makes of it: it rejects with a message, or it yields an object with
  the optional \<open>error.message\<close> field of the service's error replies, or an object with its
  list of candidates. Of a candidate only \<open>content.parts[0].text\<close> and \<open>finishReason\<close>
  are read. Bodies that are JSON but no object are left out.
\<close>

record candidate =
  cand_text :: "string option"
  cand_finishReason :: "string option"

datatype body =
    Unparsable string
  | ErrorBody "string option"
  | Candidates "candidate list"

datatype response =
    FetchRejected string
  | HttpResponse nat body

definition response_ok :: "nat \<Rightarrow> bool" where
  "response_ok status \<longleftrightarrow> 200 \<le> status \<and> status \<le> 299"

text \<open>
  \<open>errorData.error?.message\<close>, where \<open>errorData\<close> is the parsed body, or the empty object
  when parsing fails.
\<close>

fun error_message :: "body \<Rightarrow> string option" where
  "error_message (ErrorBody m) = m"
| "error_message (Unparsable _) = None"
| "error_message (Candidates _) = None"

text \<open>\<open>m || d\<close> for an optional string: the empty string is falsy too.\<close>

fun or_default :: "string option \<Rightarrow> string \<Rightarrow> string" where
  "or_default None d = d"
| "or_default (Some m) d = (if m = [] then d else m)"

text \<open>\<open>data.candidates && data.candidates[0]?.content?.parts?.[0]?.text\<close>, when truthy.\<close>

fun first_text :: "candidate list \<Rightarrow> string option" where
  "first_text [] = None"
| "first_text (c # _) =
     (case cand_text c of None \<Rightarrow> None | Some t \<Rightarrow> if t = [] then None else Some t)"

fun first_finishReason :: "candidate list \<Rightarrow> string option" where
  "first_finishReason [] = None"
| "first_finishReason (c # _) = cand_finishReason c"

text \<open>
  The three ways one pass through the body of the \<open>try\<close> block ends: \<open>return\<close> with the
  text, \<open>continue\<close> after recording \<open>lastError\<close>, or an exception that the \<open>catch\<close>
  block of the same iteration receives.
\<close>

datatype attempt = Returned string | Continued js_error | Thrown js_error

fun classify :: "response \<Rightarrow> attempt" where
  "classify (FetchRejected m) = Thrown (Error m)"
| "classify (HttpResponse status b) =
     (if \<not> response_ok status then
        (if status = 429 \<or> status = 403
         then Continued (Error (or_default (error_message b) (''Rate limit: '' @ show_nat status)))
         else if status = 404 \<or> status = 400
         then Continued (Error (or_default (error_message b) (''Model error: '' @ show_nat status)))
         else Thrown (Error (or_default (error_message b)
                               (''API request failed with status '' @ show_nat status))))
      else
        (case b of
           Unparsable m \<Rightarrow> Thrown (Error m)
         | ErrorBody _ \<Rightarrow> Thrown (Error ''Invalid response format from Gemini API'')
         | Candidates cs \<Rightarrow>
             (case first_text cs of
                Some t \<Rightarrow> Returned t
              | None \<Rightarrow>
                  if first_finishReason cs = Some ''SAFETY''
                  then Thrown (Error ''Content blocked by safety filters'')
                  else Thrown (Error ''Invalid response format from Gemini API''))))"

text \<open>
  The state of one invocation: the shared cursor, \<open>lastError\<close>, \<open>attemptCount\<close>, and two
  records of its effects, the URLs fetched in order and the number of 500 ms pauses.
\<close>

record loop_state =
  ls_cursor :: cursor
  ls_lastError :: "js_error option"
  ls_attemptCount :: nat
  ls_fetched :: "string list"
  ls_delays :: nat

record call_result =
  outcome :: "js_error + string"
  final :: loop_state

definition request_url :: "string option \<Rightarrow> string option \<Rightarrow> string" where
  "request_url model apiKey =
     ''https://generativelanguage.googleapis.com/v1beta/models/''
       @ (case model of None \<Rightarrow> ''undefined'' | Some m \<Rightarrow> m)
       @ '':generateContent?key=''
       @ (case apiKey of None \<Rightarrow> ''undefined'' | Some k \<Rightarrow> k)"

text \<open>
  The \<open>catch\<close> block: record the error; a message that mentions a rate limit or a quota
  goes on at once, any other pauses first unless this was the last attempt.
\<close>

definition catch_block :: "nat \<Rightarrow> js_error \<Rightarrow> loop_state \<Rightarrow> loop_state" where
  "catch_block totalCombinations e st =
     (let st1 = st\<lparr>ls_lastError := Some e\<rparr>
      in if js_includes (message e) ''429'' \<or> js_includes (message e) ''quota''
            \<or> js_includes (message e) ''rate limit''
         then st1
         else if ls_attemptCount st1 < totalCombinations
              then st1\<lparr>ls_delays := ls_delays st1 + 1\<rparr>
              else st1)"

text \<open>The condition under which the \<open>catch\<close> block goes on without a pause.\<close>

definition mentions_rate_limit :: "js_error \<Rightarrow> bool" where
  "mentions_rate_limit e \<longleftrightarrow>
     js_includes (message e) ''429'' \<or> js_includes (message e) ''quota''
       \<or> js_includes (message e) ''rate limit''"

text \<open>
  The \<open>while\<close> loop. The backend is a function of the URL and of the number of the attempt;
  the prompt and the generation parameters are fixed for one invocation and do not enter the
  control flow. An exception of \<open>getNextKeyAndModel\<close> would reach the \<open>catch\<close> block
  before \<open>attemptCount\<close> is incremented.
\<close>

function callGemini_loop ::
  "string list \<Rightarrow> string list \<Rightarrow> (string \<Rightarrow> nat \<Rightarrow> response) \<Rightarrow> loop_state \<Rightarrow> call_result" where
  "callGemini_loop keys models fetch st =
     (if ls_attemptCount st < length keys * length models then
        (case getNextKeyAndModel keys models (ls_cursor st) of
           Inl e \<Rightarrow>
             callGemini_loop keys models fetch
               (catch_block (length keys * length models) e st)
         | Inr ((apiKey, model), c') \<Rightarrow>
             (let url = request_url model apiKey;
                  st1 = st\<lparr>ls_cursor := c',
                           ls_attemptCount := ls_attemptCount st + 1,
                           ls_fetched := ls_fetched st @ [url]\<rparr>
              in case classify (fetch url (ls_attemptCount st1)) of
                   Returned t \<Rightarrow> \<lparr>outcome = Inr t, final = st1\<rparr>
                 | Continued e \<Rightarrow>
                     callGemini_loop keys models fetch (st1\<lparr>ls_lastError := Some e\<rparr>)
                 | Thrown e \<Rightarrow>
                     callGemini_loop keys models fetch
                       (catch_block (length keys * length models) e st1)))
      else
        \<lparr>outcome =
           Inl (case ls_lastError st of
                  Some e \<Rightarrow> e
                | None \<Rightarrow>
                    Error (''All '' @ show_nat (length keys * length models)
                           @ '' API key/model combinations exhausted. Please wait before retrying.'')),
         final = st\<rparr>)"
  by pat_completeness auto
termination
proof (relation "measure (\<lambda>(keys, models, fetch, st).
                   length keys * length models - ls_attemptCount st)")
  show "wf (measure (\<lambda>(keys, models, fetch, st).
                   length keys * length models - ls_attemptCount st))"
    by simp
next
  fix keys models :: "string list" and fetch :: "string \<Rightarrow> nat \<Rightarrow> response"
    and st :: loop_state and e :: js_error
  assume "ls_attemptCount st < length keys * length models"
    and "getNextKeyAndModel keys models (ls_cursor st) = Inl e"
  then have False
    by (auto simp: getNextKeyAndModel_def Let_def split: if_splits)
  then show "((keys, models, fetch, catch_block (length keys * length models) e st),
              keys, models, fetch, st)
             \<in> measure (\<lambda>(keys, models, fetch, st).
                  length keys * length models - ls_attemptCount st)"
    by simp
qed (auto simp: catch_block_def Let_def)

declare callGemini_loop.simps [simp del]

text \<open>
  \<open>callGemini\<close>: refuse when no key is configured, otherwise run the loop from the current
  cursor with no error recorded and no attempt made.
\<close>

definition initial_state :: "cursor \<Rightarrow> loop_state" where
  "initial_state c =
     \<lparr>ls_cursor = c, ls_lastError = None, ls_attemptCount = 0, ls_fetched = [], ls_delays = 0\<rparr>"

definition callGemini ::
  "string list \<Rightarrow> string list \<Rightarrow> (string \<Rightarrow> nat \<Rightarrow> response) \<Rightarrow> cursor \<Rightarrow> call_result" where
  "callGemini keys models fetch c =
     (if length keys = 0
      then \<lparr>outcome =
              Inl (Error ''Gemini API keys not configured. Please add your API keys to .env file.''),
            final = initial_state c\<rparr>
      else callGemini_loop keys models fetch (initial_state c))"

text \<open>The statuses after which the loop goes on to the next pair at once.\<close>

definition retryable_status :: "response \<Rightarrow> bool" where
  "retryable_status r =
     (case r of
        FetchRejected _ \<Rightarrow> False
      | HttpResponse status _ \<Rightarrow> status = 429 \<or> status = 403 \<or> status = 404 \<or> status = 400)"

text \<open>Any other status outside the range 200 to 299.\<close>

definition other_failure_status :: "response \<Rightarrow> bool" where
  "other_failure_status r =
     (case r of
        FetchRejected _ \<Rightarrow> False
      | HttpResponse status _ \<Rightarrow>
          \<not> response_ok status \<and> status \<noteq> 429 \<and> status \<noteq> 403 \<and> status \<noteq> 404 \<and> status \<noteq> 400)"

text \<open>The reason that the loop records for a response with a retryable status.\<close>

definition failure_reason :: "response \<Rightarrow> js_error" where
  "failure_reason r = (case classify r of Continued e \<Rightarrow> e | Thrown e \<Rightarrow> e | Returned _ \<Rightarrow> Error [])"


section \<open>Fallback parsers (src/services/aiService.js)\<close>

record flashcard =
  fc_question :: string
  fc_answer :: string

record question =
  q_type :: string
  q_question :: string
  q_options :: "string list"
  q_correct :: "string option"
  q_explanation :: string

text \<open>
  Case-insensitive comparison of a character with a lower-case ASCII letter or a
  punctuation mark of a pattern, as the \<open>i\<close> flag does.
\<close>

definition lower_ascii :: "char \<Rightarrow> char" where
  "lower_ascii c =
     (case map_of (zip ''ABCDEFGHIJKLMNOPQRSTUVWXYZ'' ''abcdefghijklmnopqrstuvwxyz'') c of
        Some l \<Rightarrow> l
      | None \<Rightarrow> c)"

text \<open>
  \<open>strip_prefix_ci pat s\<close>: when \<open>s\<close> begins with the lower-case pattern \<open>pat\<close>, in any
  letter case, the rest of \<open>s\<close>.
\<close>

fun strip_prefix_ci :: "string \<Rightarrow> string \<Rightarrow> string option" where
  "strip_prefix_ci [] s = Some s"
| "strip_prefix_ci (p # ps) [] = None"
| "strip_prefix_ci (p # ps) (c # cs) =
     (if lower_ascii c = p then strip_prefix_ci ps cs else None)"

text \<open>
  The regular expressions \<open>/^(Q|Question):/i\<close> and \<open>/^(A|Answer):/i\<close>: the result is the
  line without the matched prefix, which is what \<open>line.replace\<close> with the empty string
  leaves. The alternatives are tried in the order of the pattern.
\<close>

definition match_Q :: "string \<Rightarrow> string option" where
  "match_Q line =
     (case strip_prefix_ci ''q:'' line of
        Some r \<Rightarrow> Some r
      | None \<Rightarrow> strip_prefix_ci ''question:'' line)"

definition match_A :: "string \<Rightarrow> string option" where
  "match_A line =
     (case strip_prefix_ci ''a:'' line of
        Some r \<Rightarrow> Some r
      | None \<Rightarrow> strip_prefix_ci ''answer:'' line)"

text \<open>
  The loop of \<open>parseFlashcardsManually\<close> over the non-blank lines: the state is the list
  \<open>flashcards\<close> and the record \<open>currentQ\<close> under construction (\<open>None\<close> for \<open>null\<close>).
\<close>

fun flashcard_loop ::
  "flashcard list \<Rightarrow> flashcard option \<Rightarrow> string list \<Rightarrow> flashcard list \<times> flashcard option" where
  "flashcard_loop flashcards currentQ [] = (flashcards, currentQ)"
| "flashcard_loop flashcards currentQ (line # lines) =
     (case match_Q line of
        Some r \<Rightarrow>
          flashcard_loop
            (case currentQ of None \<Rightarrow> flashcards | Some q \<Rightarrow> flashcards @ [q])
            (Some \<lparr>fc_question = trim r, fc_answer = []\<rparr>)
            lines
      | None \<Rightarrow>
          (case (match_A line, currentQ) of
             (Some r, Some q) \<Rightarrow>
               flashcard_loop flashcards (Some (q\<lparr>fc_answer := trim r\<rparr>)) lines
           | _ \<Rightarrow> flashcard_loop flashcards currentQ lines))"

definition placeholder_flashcard :: flashcard where
  "placeholder_flashcard =
     \<lparr>fc_question = ''Sample Question'',
      fc_answer = ''Sample Answer - Generation failed, please try again.''\<rparr>"

definition nonblank_lines :: "string \<Rightarrow> string list" where
  "nonblank_lines text = filter (\<lambda>line. trim line \<noteq> []) (split_lines text)"

definition parseFlashcardsManually :: "string \<Rightarrow> flashcard list" where
  "parseFlashcardsManually text =
     (let (flashcards, currentQ) = flashcard_loop [] None (nonblank_lines text);
          flashcards' =
            (case currentQ of
               None \<Rightarrow> flashcards
             | Some q \<Rightarrow> if fc_answer q \<noteq> [] then flashcards @ [q] else flashcards)
      in if length flashcards' > 0 then flashcards' else [placeholder_flashcard])"

definition placeholder_question :: question where
  "placeholder_question =
     \<lparr>q_type = ''mcq'',
      q_question = ''Sample question - Generation failed, please try again.'',
      q_options = [''A) Option 1'', ''B) Option 2'', ''C) Option 3'', ''D) Option 4''],
      q_correct = Some ''A'',
      q_explanation = ''Please regenerate questions.''\<rparr>"

definition parseQuestionsManually :: "string \<Rightarrow> question list" where
  "parseQuestionsManually text = [placeholder_question]"

text \<open>
  For stating what the flashcard parser extracts: the questions that the lines of the
  \<open>Q:\<close> pattern carry, the text that lists cards in the pattern line by line, and the
  strings that survive it unchanged (no line feed, no white space at either end).
\<close>

definition question_lines :: "string list \<Rightarrow> string set" where
  "question_lines lines = {trim r |r line. line \<in> set lines \<and> match_Q line = Some r}"

definition q_line :: "flashcard \<Rightarrow> string" where
  "q_line c = ''Q: '' @ fc_question c"

definition a_line :: "flashcard \<Rightarrow> string" where
  "a_line c = ''A: '' @ fc_answer c"

definition render_flashcards :: "flashcard list \<Rightarrow> string" where
  "render_flashcards cards = concat (map (\<lambda>c. q_line c @ [LF] @ a_line c @ [LF]) cards)"

definition clean :: "string \<Rightarrow> bool" where
  "clean s \<longleftrightarrow> LF \<notin> set s \<and> (s = [] \<or> (\<not> is_space (hd s) \<and> \<not> is_space (last s)))"

section \<open>Text chunking (src/utils/textProcessing.js)\<close>

text \<open>\<open>replace(/\r\n/g, "\n")\<close>.\<close>

fun replace_crlf :: "string \<Rightarrow> string" where
  "replace_crlf [] = []"
| "replace_crlf [c] = [c]"
| "replace_crlf (c # d # cs) =
     (if c = CR \<and> d = LF then LF # replace_crlf cs else c # replace_crlf (d # cs))"

text \<open>\<open>replace(/\n{3,}/g, "\n\n")\<close>: a maximal run of three or more line feeds becomes two.\<close>

function collapse_newlines :: "string \<Rightarrow> string" where
  "collapse_newlines [] = []"
| "collapse_newlines (c # cs) =
     (if c = LF
      then (let n = Suc (length (takeWhile (\<lambda>d. d = LF) cs))
            in replicate (if n \<ge> 3 then 2 else n) LF
                 @ collapse_newlines (dropWhile (\<lambda>d. d = LF) cs))
      else c # collapse_newlines cs)"
  by pat_completeness auto
termination
  by (relation "measure length") (auto simp: less_Suc_eq_le length_dropWhile_le)

text \<open>\<open>replace(/[ \t]+/g, " ")\<close>: a maximal run of spaces and tabs becomes one space.\<close>

function collapse_blanks :: "string \<Rightarrow> string" where
  "collapse_blanks [] = []"
| "collapse_blanks (c # cs) =
     (if c = SPACE \<or> c = TAB
      then SPACE # collapse_blanks (dropWhile (\<lambda>d. d = SPACE \<or> d = TAB) cs)
      else c # collapse_blanks cs)"
  by pat_completeness auto
termination
  by (relation "measure length") (auto simp: less_Suc_eq_le length_dropWhile_le)

definition normalizeText :: "string \<Rightarrow> string" where
  "normalizeText text = trim (collapse_blanks (collapse_newlines (replace_crlf text)))"

text \<open>
  \<open>Math.floor(maxWords * (overlapPercent / 100))\<close> for non-negative integer arguments:
  the quotient is rounded to a double, the product of that double with \<open>maxWords\<close> is
  rounded to a double, and the floor of the result is taken.
\<close>

definition overlap_words :: "nat \<Rightarrow> nat \<Rightarrow> nat" where
  "overlap_words maxWords overlapPercent =
     (let (n1, d1) = double_ratio overlapPercent 100;
          (n2, d2) = double_ratio (maxWords * n1) d1
      in n2 div d2)"

text \<open>
  The \<open>while\<close> loop of \<open>chunkText\<close>. The start index is an integer: it turns negative when
  the overlap exceeds the chunk, and with an overlap that is no smaller than the chunk the
  loop never ends, which is the value \<open>None\<close>.
\<close>

partial_function (option) chunk_loop ::
  "string list \<Rightarrow> nat \<Rightarrow> nat \<Rightarrow> int \<Rightarrow> string list \<Rightarrow> string list option" where
  "chunk_loop words maxWords overlapWords startIdx chunks =
     (if startIdx < int (length words)
      then (let endIdx = min (startIdx + int maxWords) (int (length words));
                chunks' = chunks @ [join_space (js_slice words startIdx endIdx)]
            in if endIdx \<ge> int (length words)
               then Some chunks'
               else chunk_loop words maxWords overlapWords (endIdx - int overlapWords) chunks')
      else Some chunks)"

definition chunkText :: "string \<Rightarrow> nat \<Rightarrow> nat \<Rightarrow> string list option" where
  "chunkText text maxWords overlapPercent =
     (let normalized = normalizeText text;
          words = split_ws normalized
      in if length words \<le> maxWords
         then Some [normalized]
         else chunk_loop words maxWords (overlap_words maxWords overlapPercent) 0 [])"


section \<open>The profile store (src/utils/storage.js)\<close>

text \<open>
  Local storage holds the list of users, the identifier of the current user and one JSON
  document per user. Serialisation is transparent: an absent property and \<open>undefined\<close>
  are both \<open>None\<close>. An object used as a dictionary is an association list with distinct
  keys. The clock is an input: the functions that read it take \<open>Date.now()\<close> and the ISO
  rendering of \<open>new Date()\<close> as arguments.
\<close>

record user =
  user_id :: nat
  user_name :: string
  user_email :: string
  user_createdAt :: string

record note_record =
  note_id :: "nat option"
  note_userId :: "nat option"
  note_title :: string
  note_subject :: string
  note_summary :: string
  note_keyPoints :: "string list"
  note_flashcards :: "flashcard list"
  note_questions :: "question list"
  note_rawText :: string
  note_sourceFile :: "string option"
  note_wordCount :: nat
  note_depth :: string
  note_createdAt :: string

datatype stamp = Millis nat | Iso string

record quiz_result =
  qr_noteId :: "nat option"
  qr_noteTitle :: string
  qr_noteSubject :: string
  qr_questionIndex :: nat
  qr_questionType :: string
  qr_question :: string
  qr_userAnswer :: "string option"
  qr_correctAnswer :: "string option"
  qr_isCorrect :: bool
  qr_score :: int
  qr_timestamp :: stamp
  qr_userId :: "nat option"

record progress =
  pr_selectedAnswers :: "(nat \<times> string) list"
  pr_showAnswers :: "(nat \<times> bool) list"
  pr_questionScores :: "(nat \<times> int) list"
  pr_allQuestionsChecked :: bool
  pr_lastUpdated :: "string option"

record settings =
  defaultDepth :: string
  preferredLanguage :: string
  defaultFormat :: string

text \<open>
  The per-user document. The lists \<open>notes\<close> and \<open>quizResults\<close> are always present (the
  guards \<open>x || []\<close> of the source leave a list as it is); \<open>quizProgress\<close> is absent until
  the first progress is saved. Its keys are note identifiers, \<open>None\<close> being the property
  name that an undefined identifier gives.
\<close>

record user_data =
  ud_profile :: "user option"
  ud_notes :: "note_record list"
  ud_quizResults :: "quiz_result list"
  ud_quizProgress :: "(nat option \<times> progress) list option"
  ud_settings :: settings

record store =
  st_users :: "user list"
  st_currentUser :: "nat option"
  st_userData :: "nat \<Rightarrow> user_data option"

definition default_settings :: settings where
  "default_settings =
     \<lparr>defaultDepth = ''medium'', preferredLanguage = ''english'', defaultFormat = ''bullets''\<rparr>"

definition getAllUsers :: "store \<Rightarrow> user list" where
  "getAllUsers s = st_users s"

definition getCurrentUser :: "store \<Rightarrow> user option" where
  "getCurrentUser s =
     (case st_currentUser s of
        None \<Rightarrow> None
      | Some userId \<Rightarrow> find (\<lambda>u. user_id u = userId) (getAllUsers s))"

definition getUserData :: "store \<Rightarrow> nat \<Rightarrow> user_data" where
  "getUserData s userId =
     (case st_userData s userId of
        Some d \<Rightarrow> d
      | None \<Rightarrow>
          \<lparr>ud_profile = None, ud_notes = [], ud_quizResults = [], ud_quizProgress = None,
           ud_settings = default_settings\<rparr>)"

definition saveUserData :: "store \<Rightarrow> nat \<Rightarrow> user_data \<Rightarrow> store" where
  "saveUserData s userId userData = s\<lparr>st_userData := (st_userData s)(userId \<mapsto> userData)\<rparr>"

text \<open>
  \<open>saveNoteToHistory\<close>: throws without a current user; otherwise stamps the note, puts
  it in front of the list, keeps the first 50 and returns the stamped note.
\<close>

definition saveNoteToHistory ::
  "store \<Rightarrow> note_record \<Rightarrow> nat \<Rightarrow> string \<Rightarrow> js_error + (note_record \<times> store)" where
  "saveNoteToHistory s n now_ms now_iso =
     (case getCurrentUser s of
        None \<Rightarrow> Inl (Error ''No user selected. Please create or select a user first.'')
      | Some currentUser \<Rightarrow>
          (let userData = getUserData s (user_id currentUser);
               noteWithTimestamp =
                 n\<lparr>note_id := Some now_ms, note_userId := Some (user_id currentUser),
                   note_createdAt := now_iso\<rparr>;
               notes1 = noteWithTimestamp # ud_notes userData;
               userData' = userData\<lparr>ud_notes := take 50 notes1\<rparr>
           in Inr (noteWithTimestamp, saveUserData s (user_id currentUser) userData')))"

text \<open>
  \<open>deleteNoteFromHistory\<close>: nothing without a current user; otherwise the note, its quiz
  results and its progress entry are removed from the current user's document.
\<close>

definition deleteNoteFromHistory :: "store \<Rightarrow> nat \<Rightarrow> store" where
  "deleteNoteFromHistory s noteId =
     (case getCurrentUser s of
        None \<Rightarrow> s
      | Some currentUser \<Rightarrow>
          (let userData = getUserData s (user_id currentUser);
               userData1 = userData\<lparr>ud_notes :=
                 filter (\<lambda>n. note_id n \<noteq> Some noteId) (ud_notes userData)\<rparr>;
               userData2 = userData1\<lparr>ud_quizResults :=
                 filter (\<lambda>r. qr_noteId r \<noteq> Some noteId) (ud_quizResults userData1)\<rparr>;
               userData3 =
                 (case ud_quizProgress userData2 of
                    None \<Rightarrow> userData2
                  | Some qp \<Rightarrow>
                      if map_of qp (Some noteId) \<noteq> None
                      then userData2\<lparr>ud_quizProgress := Some (AList.delete (Some noteId) qp)\<rparr>
                      else userData2)
           in saveUserData s (user_id currentUser) userData3))"

definition getQuizResults :: "store \<Rightarrow> quiz_result list" where
  "getQuizResults s =
     (case getCurrentUser s of
        None \<Rightarrow> []
      | Some currentUser \<Rightarrow> ud_quizResults (getUserData s (user_id currentUser)))"

text \<open>\<open>xs.findIndex(p)\<close>: the first index whose element satisfies \<open>p\<close>; \<open>None\<close> for -1.\<close>

fun findIndex :: "('a \<Rightarrow> bool) \<Rightarrow> 'a list \<Rightarrow> nat option" where
  "findIndex p [] = None"
| "findIndex p (x # xs) =
     (if p x then Some 0 else (case findIndex p xs of None \<Rightarrow> None | Some i \<Rightarrow> Some (Suc i)))"

text \<open>
  \<open>saveQuizResult\<close>: nothing without a current user; otherwise the stamped result
  replaces the first stored result of the same note and question, or is appended.
\<close>

definition saveQuizResult :: "store \<Rightarrow> quiz_result \<Rightarrow> string \<Rightarrow> store" where
  "saveQuizResult s result now_iso =
     (case getCurrentUser s of
        None \<Rightarrow> s
      | Some currentUser \<Rightarrow>
          (let userData = getUserData s (user_id currentUser);
               existingIndex =
                 findIndex (\<lambda>r. qr_noteId r = qr_noteId result
                                \<and> qr_questionIndex r = qr_questionIndex result)
                   (ud_quizResults userData);
               resultToSave =
                 result\<lparr>qr_userId := Some (user_id currentUser), qr_timestamp := Iso now_iso\<rparr>;
               userData' =
                 (case existingIndex of
                    Some i \<Rightarrow>
                      userData\<lparr>ud_quizResults := (ud_quizResults userData)[i := resultToSave]\<rparr>
                  | None \<Rightarrow>
                      userData\<lparr>ud_quizResults := ud_quizResults userData @ [resultToSave]\<rparr>)
           in saveUserData s (user_id currentUser) userData'))"

definition saveQuizProgress :: "store \<Rightarrow> nat option \<Rightarrow> progress \<Rightarrow> string \<Rightarrow> store" where
  "saveQuizProgress s noteId p now_iso =
     (case getCurrentUser s of
        None \<Rightarrow> s
      | Some currentUser \<Rightarrow>
          (let userData = getUserData s (user_id currentUser);
               qp = (case ud_quizProgress userData of None \<Rightarrow> [] | Some m \<Rightarrow> m);
               userData' = userData\<lparr>ud_quizProgress :=
                 Some (AList.update noteId (p\<lparr>pr_lastUpdated := Some now_iso\<rparr>) qp)\<rparr>
           in saveUserData s (user_id currentUser) userData'))"

text \<open>The key under which a user's quiz results are unique.\<close>

definition result_key :: "quiz_result \<Rightarrow> nat option \<times> nat" where
  "result_key r = (qr_noteId r, qr_questionIndex r)"

definition unique_results :: "user_data \<Rightarrow> bool" where
  "unique_results d \<longleftrightarrow> distinct (map result_key (ud_quizResults d))"

text \<open>
  \<open>userData.quizProgress?.[noteId]\<close> on a user's document, and \<open>getQuizProgress\<close> for
  the current user.
\<close>

definition progress_entry :: "user_data \<Rightarrow> nat option \<Rightarrow> progress option" where
  "progress_entry d k = (case ud_quizProgress d of None \<Rightarrow> None | Some qp \<Rightarrow> map_of qp k)"

definition getQuizProgress :: "store \<Rightarrow> nat option \<Rightarrow> progress option" where
  "getQuizProgress s noteId =
     (case getCurrentUser s of
        None \<Rightarrow> None
      | Some currentUser \<Rightarrow> progress_entry (getUserData s (user_id currentUser)) noteId)"

section \<open>Quiz scoring (handleShowAnswer of the output screen)\<close>

record component_state =
  selectedAnswers :: "(nat \<times> string) list"
  showAnswers :: "(nat \<times> bool) list"
  questionScores :: "(nat \<times> int) list"
  allQuestionsChecked :: bool

text \<open>
  The scoring rule at the head of \<open>handleShowAnswer\<close>: strict equality of the selected
  option (\<open>None\<close> when nothing is selected) with the question's \<open>correct\<close> property.
\<close>

definition score_answer :: "string option \<Rightarrow> string option \<Rightarrow> int \<times> bool" where
  "score_answer userAnswer correct = (if userAnswer = correct then (1, True) else (- 1, False))"

text \<open>
  \<open>handleShowAnswer\<close>: reading \<open>correct\<close> of a question that does not exist throws.
  Otherwise the result is saved, the question is marked as shown with its score, and the
  progress of the note is saved. The new component state and the new store are returned.
\<close>

definition handleShowAnswer ::
  "note_record \<Rightarrow> component_state \<Rightarrow> store \<Rightarrow> nat \<Rightarrow> string \<Rightarrow> nat
     \<Rightarrow> js_error + (component_state \<times> store)" where
  "handleShowAnswer notesData cs s now_ms now_iso questionIndex =
     (case js_nth (note_questions notesData) questionIndex of
        None \<Rightarrow> Inl (Error ''Cannot read properties of undefined (reading 'correct')'')
      | Some q \<Rightarrow>
          (let userAnswer = map_of (selectedAnswers cs) questionIndex;
               (score, isCorrect) = score_answer userAnswer (q_correct q);
               quizResultData =
                 \<lparr>qr_noteId = note_id notesData, qr_noteTitle = note_title notesData,
                  qr_noteSubject = note_subject notesData, qr_questionIndex = questionIndex,
                  qr_questionType = q_type q, qr_question = q_question q,
                  qr_userAnswer = userAnswer, qr_correctAnswer = q_correct q,
                  qr_isCorrect = isCorrect, qr_score = score, qr_timestamp = Millis now_ms,
                  qr_userId = None\<rparr>;
               s1 = saveQuizResult s quizResultData now_iso;
               newShowAnswers = AList.update questionIndex True (showAnswers cs);
               newQuestionScores = AList.update questionIndex score (questionScores cs);
               allChecked = (length newShowAnswers = length (note_questions notesData));
               updatedSelectedAnswers =
                 (case userAnswer of
                    None \<Rightarrow> AList.delete questionIndex (selectedAnswers cs)
                  | Some a \<Rightarrow> AList.update questionIndex a (selectedAnswers cs));
               s2 = saveQuizProgress s1 (note_id notesData)
                      \<lparr>pr_selectedAnswers = updatedSelectedAnswers,
                       pr_showAnswers = newShowAnswers,
                       pr_questionScores = newQuestionScores,
                       pr_allQuestionsChecked = allChecked,
                       pr_lastUpdated = None\<rparr>
                      now_iso
           in Inr (cs\<lparr>showAnswers := newShowAnswers, questionScores := newQuestionScores,
                      allQuestionsChecked := allChecked\<rparr>, s2)))"

section \<open>Dashboard statistics (src/components/Dashboard.jsx)\<close>

text \<open>
  The normalised percentage of both dashboard functions,
  \<open>parseFloat((((totalScore + questionsAttempted) / (2 * questionsAttempted)) * 100).toFixed(1))\<close>:
  the sum and the doubled count are integers, their quotient is rounded to a double, its
  product with 100 is rounded to a double, and \<open>toFixed(1)\<close> gives the nearest multiple of
  one tenth, which is the value of the result: \<open>parseFloat\<close> of the decimal \<open>t / 10\<close> is
  identified with that decimal. A negative sum is handled on its absolute value, as the
  rounding is symmetric. The sums are taken to be below \<open>2^53\<close>, where integers are exact.
\<close>

definition percentage :: "int \<Rightarrow> nat \<Rightarrow> real" where
  "percentage totalScore questionsAttempted =
     (if questionsAttempted > 0
      then (let k = totalScore + int questionsAttempted;
                (n1, d1) = double_ratio (nat \<bar>k\<bar>) (2 * questionsAttempted);
                (n2, d2) = double_ratio (n1 * 100) d1;
                t = real (tenths n2 d2) / 10
            in if k < 0 then - t else t)
      else 0)"

record stats =
  totalNotes :: nat
  totalFlashcards :: nat
  totalQuestions :: nat
  correctAnswers :: nat
  incorrectAnswers :: nat
  totalMarks :: int
  averageScore :: real
  questionsAttempted :: nat

text \<open>
  The \<open>forEach\<close> of \<open>calculateStats\<close> over the quiz results, on the four counters
  \<open>totalScore\<close>, \<open>questionsAttempted\<close>, \<open>correctQuestions\<close> and \<open>incorrectQuestions\<close>.
\<close>

fun tally :: "int \<times> nat \<times> nat \<times> nat \<Rightarrow> quiz_result list \<Rightarrow> int \<times> nat \<times> nat \<times> nat" where
  "tally acc [] = acc"
| "tally (totalScore, attempted, correct, incorrect) (r # rs) =
     tally (totalScore + qr_score r, attempted + 1,
            (if qr_isCorrect r then correct + 1 else correct),
            (if qr_isCorrect r then incorrect else incorrect + 1)) rs"

definition calculateStats :: "note_record list \<Rightarrow> quiz_result list \<Rightarrow> stats" where
  "calculateStats notesList quizResults =
     (let (totalScore, attempted, correct, incorrect) = tally (0, 0, 0, 0) quizResults
      in \<lparr>totalNotes = length notesList,
          totalFlashcards = foldl (\<lambda>sum n. sum + length (note_flashcards n)) 0 notesList,
          totalQuestions = foldl (\<lambda>sum n. sum + length (note_questions n)) 0 notesList,
          correctAnswers = correct,
          incorrectAnswers = incorrect,
          totalMarks = totalScore,
          averageScore = percentage totalScore attempted,
          questionsAttempted = attempted\<rparr>)"

record note_performance =
  np_score :: int
  np_attempted :: nat
  np_correct :: nat
  np_percentage :: real

text \<open>\<open>getNotePerformance\<close>: \<open>null\<close> for a note without results.\<close>

definition getNotePerformance :: "quiz_result list \<Rightarrow> nat option \<Rightarrow> note_performance option" where
  "getNotePerformance quizResults noteId =
     (let noteResults = filter (\<lambda>r. qr_noteId r = noteId) quizResults
      in if length noteResults = 0 then None
         else Some \<lparr>np_score = foldl (\<lambda>t r. t + qr_score r) 0 noteResults,
                    np_attempted = length noteResults,
                    np_correct = length (filter qr_isCorrect noteResults),
                    np_percentage =
                      percentage (foldl (\<lambda>t r. t + qr_score r) 0 noteResults)
                        (length noteResults)\<rparr>)"


text \<open>
  The percentage as the specification words it, \<open>((S + N) / (2N)) \<times> 100\<close>, for comparison
  with what the dashboard computes.
\<close>

definition spec_percentage :: "int \<Rightarrow> nat \<Rightarrow> real" where
  "spec_percentage S N = ((of_int S + of_nat N) / (2 * of_nat N)) * 100"

section \<open>Sample data\<close>

text \<open>A profile, notes, results and a store with that profile as the current user.\<close>

definition sample_user :: user where
  "sample_user = \<lparr>user_id = 1, user_name = ''Ada'', user_email = ''ada@example.org'',
                   user_createdAt = ''2025-01-01T00:00:00.000Z''\<rparr>"

definition sample_question :: "string \<Rightarrow> question" where
  "sample_question correct =
     \<lparr>q_type = ''mcq'', q_question = ''Which?'',
      q_options = [''A) a'', ''B) b'', ''C) c'', ''D) d''],
      q_correct = Some correct, q_explanation = ''Because.''\<rparr>"

definition sample_note :: "nat \<Rightarrow> note_record" where
  "sample_note i =
     \<lparr>note_id = Some i, note_userId = Some 1, note_title = ''Title'', note_subject = ''Subject'',
      note_summary = ''Summary'', note_keyPoints = [], note_flashcards = [],
      note_questions = [sample_question ''A'', sample_question ''B''],
      note_rawText = ''Text'', note_sourceFile = None, note_wordCount = 1,
      note_depth = ''medium'', note_createdAt = ''2025-01-01T00:00:00.000Z''\<rparr>"

definition sample_result :: "nat \<Rightarrow> nat \<Rightarrow> bool \<Rightarrow> quiz_result" where
  "sample_result noteId questionIndex ok =
     \<lparr>qr_noteId = Some noteId, qr_noteTitle = ''Title'', qr_noteSubject = ''Subject'',
      qr_questionIndex = questionIndex, qr_questionType = ''mcq'', qr_question = ''Which?'',
      qr_userAnswer = Some (if ok then ''A'' else ''B''), qr_correctAnswer = Some ''A'',
      qr_isCorrect = ok, qr_score = (if ok then 1 else - 1), qr_timestamp = Millis 0,
      qr_userId = Some 1\<rparr>"

definition sample_progress :: progress where
  "sample_progress =
     \<lparr>pr_selectedAnswers = [(0, ''A'')], pr_showAnswers = [(0, True)],
      pr_questionScores = [(0, 1)], pr_allQuestionsChecked = False,
      pr_lastUpdated = Some ''2025-01-01T00:00:00.000Z''\<rparr>"

definition sample_store :: "note_record list \<Rightarrow> quiz_result list \<Rightarrow> store" where
  "sample_store ns rs =
     \<lparr>st_users = [sample_user], st_currentUser = Some 1,
      st_userData = [1 \<mapsto>
        \<lparr>ud_profile = Some sample_user, ud_notes = ns, ud_quizResults = rs,
         ud_quizProgress = Some [(Some 7, sample_progress), (Some 8, sample_progress)],
         ud_settings = default_settings\<rparr>]\<rparr>"

text \<open>
  Three backends: one always answers 429, one answers 500 once and then with a text, and one
  answers 429, then 500, then with a text.
\<close>

definition always_429 :: "string \<Rightarrow> nat \<Rightarrow> response" where
  "always_429 url i = HttpResponse 429 (ErrorBody None)"

definition failing_then_ok :: "string \<Rightarrow> nat \<Rightarrow> response" where
  "failing_then_ok url i =
     (if i = 1 then HttpResponse 500 (ErrorBody None)
      else HttpResponse 200
             (Candidates [\<lparr>cand_text = Some ''ok'', cand_finishReason = Some ''STOP''\<rparr>]))"

definition busy_failing_then_ok :: "string \<Rightarrow> nat \<Rightarrow> response" where
  "busy_failing_then_ok url i =
     (if i = 1 then HttpResponse 429 (ErrorBody (Some ''Resource has been exhausted''))
      else if i = 2 then HttpResponse 500 (ErrorBody None)
      else HttpResponse 200
             (Candidates [\<lparr>cand_text = Some ''ok'', cand_finishReason = Some ''STOP''\<rparr>]))"

text \<open>A text of \<open>n + 1\<close> one-letter words separated by single spaces.\<close>

definition repeated_words :: "nat \<Rightarrow> string" where
  "repeated_words n = concat (replicate n ''a '') @ ''a''"

section \<open>Properties of the double-precision numbers\<close>

text \<open>The equations that evaluate the arithmetic on numerals.\<close>

lemmas double_eval = double_ratio_def scale_up.simps scale_down.simps round_half_even_def
  two52_def two53_def Let_def

lemma round_half_even_error:
  assumes "0 < b"
  shows "\<bar>real (round_half_even a b) - real a / real b\<bar> \<le> 1 / 2"
proof -
  define q r where "q = a div b" and "r = a mod b"
  have a: "real a = real q * real b + real r"
    unfolding q_def r_def by (metis div_mult_mod_eq of_nat_add of_nat_mult)
  have rb: "r < b" unfolding r_def using assms by simp
  have div: "real a / real b = real q + real r / real b"
    using assms by (simp add: a add_divide_distrib)
  have B: "0 < real b" using assms by simp
  consider "2 * r < b" | "2 * r > b" | "2 * r = b" by linarith
  then show ?thesis
  proof cases
    case 1
    then have m: "round_half_even a b = q" by (simp add: round_half_even_def q_def r_def Let_def)
    have "real r / real b \<le> 1 / 2" using 1 B by (simp add: field_simps)
    moreover have "0 \<le> real r / real b" by simp
    ultimately show ?thesis unfolding m div by linarith
  next
    case 2
    then have m: "round_half_even a b = q + 1" by (simp add: round_half_even_def q_def r_def Let_def)
    have "1 / 2 \<le> real r / real b" using 2 B by (simp add: field_simps)
    moreover have "real r / real b \<le> 1" using rb B by (simp add: field_simps)
    ultimately show ?thesis unfolding m div by (simp add: abs_le_iff) 
  next
    case 3
    then have m: "round_half_even a b = q \<or> round_half_even a b = q + 1"
      by (simp add: round_half_even_def q_def r_def Let_def)
    have "real r / real b = 1 / 2" using 3 B by (simp add: field_simps)
    then show ?thesis using m unfolding div by (auto simp: abs_le_iff)
  qed
qed

lemma round_half_even_le:
  assumes "0 < b" and "a \<le> c * b"
  shows "round_half_even a b \<le> c"
proof -
  have q: "a div b \<le> c" using assms by (metis div_le_mono div_mult_self_is_m)
  show ?thesis
  proof (cases "a div b = c")
    case True
    have "a mod b = 0"
    proof -
      have "a div b * b + a mod b = a" by (rule div_mult_mod_eq)
      then show ?thesis using True assms(2) by simp
    qed
    then show ?thesis using assms(1) True by (simp add: round_half_even_def Let_def)
  next
    case False
    then have "a div b + 1 \<le> c" using q by simp
    then show ?thesis by (simp add: round_half_even_def Let_def)
  qed
qed

lemma two53_two52: "two53 = 2 * two52"
  by (simp add: two53_def two52_def)

lemma scale_up_props:
  "scale_up a b s0 = (a', s) \<Longrightarrow>
   s0 \<le> s \<and> a' = a * 2 ^ (s - s0) \<and> (0 < a \<longrightarrow> b * two52 \<le> a')
   \<and> (s0 < s \<longrightarrow> a' < b * two53)"
proof (induction a b s0 rule: scale_up.induct)
  case (1 a b s0)
  show ?case
  proof (cases "0 < a \<and> a < b * two52")
    case True
    then have rec: "scale_up (2 * a) b (Suc s0) = (a', s)"
      using "1.prems" by (subst (asm) scale_up.simps) simp
    have "0 < 2 * a" using True by simp
    with "1.IH" [OF True rec]
    have ih: "Suc s0 \<le> s" "a' = 2 * a * 2 ^ (s - Suc s0)" "b * two52 \<le> a'"
      "Suc s0 < s \<longrightarrow> a' < b * two53"
      by blast+
    have e: "2 * a * 2 ^ (s - Suc s0) = a * 2 ^ (s - s0)"
      using ih(1) by (simp add: Suc_diff_Suc power_Suc [symmetric] Suc_diff_le del: power_Suc)
    have last: "a' < b * two53"
    proof (cases "Suc s0 = s")
      case eq: True
      then have "a' = 2 * a" using ih(2) by simp
      then show ?thesis using True by (simp add: two53_two52)
    next
      case False
      then show ?thesis using ih(1,4) by simp
    qed
    show ?thesis using ih e last by simp
  next
    case False
    then have "a' = a" "s = s0"
      using "1.prems" by (subst (asm) scale_up.simps, simp)+
    then show ?thesis using False by auto
  qed
qed

lemma scale_down_props:
  "0 < b \<Longrightarrow> scale_down a b t0 = (b', t) \<Longrightarrow>
   t0 \<le> t \<and> b' = b * 2 ^ (t - t0) \<and> a < b' * two53 \<and> (t0 < t \<longrightarrow> b' * two52 \<le> a)"
proof (induction a b t0 rule: scale_down.induct)
  case (1 a b t0)
  show ?case
  proof (cases "0 < b \<and> b * two53 \<le> a")
    case True
    then have rec: "scale_down a (2 * b) (Suc t0) = (b', t)"
      using "1.prems" by (subst (asm) scale_down.simps) simp
    have "0 < 2 * b" using True by simp
    from "1.IH" [OF True this rec]
    have ih: "Suc t0 \<le> t" "b' = 2 * b * 2 ^ (t - Suc t0)" "a < b' * two53"
      "Suc t0 < t \<longrightarrow> b' * two52 \<le> a"
      by blast+
    have e: "2 * b * 2 ^ (t - Suc t0) = b * 2 ^ (t - t0)"
      using ih(1) by (simp add: Suc_diff_Suc power_Suc [symmetric] Suc_diff_le del: power_Suc)
    have last: "b' * two52 \<le> a"
    proof (cases "Suc t0 = t")
      case eq: True
      then have "b' = 2 * b" using ih(2) by simp
      then show ?thesis using True by (simp add: two53_two52 mult.commute mult.left_commute)
    next
      case False
      then show ?thesis using ih(1,4) by simp
    qed
    show ?thesis using ih e last by simp
  next
    case False
    then have "b' = b" "t = t0"
      using "1.prems" by (subst (asm) scale_down.simps, simp)+
    then show ?thesis using False "1.prems"(1) by (auto simp: not_le)
  qed
qed

lemma double_ratio_zero: "0 < b \<Longrightarrow> double_ratio 0 b = (0, 1)"
  by (simp add: double_ratio_def scale_up.simps scale_down.simps round_half_even_def Let_def
        two53_def)

lemma double_ratio_props:
  assumes "0 < b" and "double_ratio a b = (n, d)"
  shows "0 < d"
    and "\<bar>real n / real d - real a / real b\<bar> \<le> (real a / real b) / 2 ^ 53"
    and "c < two53 \<Longrightarrow> a \<le> c * b \<Longrightarrow> n \<le> c * d"
proof -
  obtain a' s where up: "scale_up a b 0 = (a', s)" by (cases "scale_up a b 0")
  obtain b' t where down: "scale_down a' b 0 = (b', t)" by (cases "scale_down a' b 0")
  define m where "m = round_half_even a' b'"
  have nd: "n = m * 2 ^ t" "d = 2 ^ s"
    using assms(2) by (simp_all add: double_ratio_def up down m_def Let_def)
  from scale_up_props [OF up]
  have a': "a' = a * 2 ^ s" and lo: "0 < a \<longrightarrow> b * two52 \<le> a'" and hi: "0 < s \<longrightarrow> a' < b * two53"
    unfolding diff_zero by blast+
  from scale_down_props [OF assms(1) down]
  have b': "b' = b * 2 ^ t" and below: "a' < b' * two53" and tpos: "0 < t \<longrightarrow> b' * two52 \<le> a'"
    unfolding diff_zero by blast+
  have b'pos: "0 < b'" using b' assms(1) by simp
  show "0 < d" using nd by simp
  have t0: "t = 0" if "0 < s"
  proof (rule ccontr)
    assume "t \<noteq> 0"
    then have "b' * two52 \<le> a'" using tpos by simp
    moreover have "2 * b \<le> b'"
      using b' \<open>t \<noteq> 0\<close> by (cases t) simp_all
    ultimately have "2 * b * two52 \<le> a'"
      by (meson mult_le_mono1 order_trans)
    then show False using hi that by (simp add: two53_two52)
  qed
  define x where "x = real a' / real b'"
  define sc :: real where "sc = 2 ^ t / 2 ^ s"
  have ratio: "real a / real b = x * sc"
    using assms(1) by (simp add: a' b' x_def sc_def)
  have val: "real n / real d = real m * sc"
    by (simp add: nd sc_def)
  have err: "\<bar>real m - x\<bar> \<le> x / 2 ^ 53"
  proof (cases "a = 0")
    case True
    then have "a' = 0" using a' by simp
    then have "m = 0" using b'pos by (simp add: m_def round_half_even_def Let_def)
    then show ?thesis using \<open>a' = 0\<close> by (simp add: x_def)
  next
    case False
    then have "b * two52 \<le> a'" using lo by simp
    have big: "b' * two52 \<le> a'"
    proof (cases "t = 0")
      case True
      then show ?thesis using b' \<open>b * two52 \<le> a'\<close> by simp
    next
      case False
      then show ?thesis using tpos by simp
    qed
    then have "real (b' * two52) \<le> real a'"
      by (simp only: of_nat_le_iff)
    then have "real b' * 2 ^ 52 \<le> real a'"
      by (simp add: two52_def)
    then have x: "2 ^ 52 \<le> x"
      using b'pos by (simp add: x_def pos_le_divide_eq)
    have "\<bar>real m - x\<bar> \<le> 1 / 2"
      unfolding m_def x_def by (rule round_half_even_error [OF b'pos])
    also have "\<dots> \<le> x / 2 ^ 53"
      using x by simp
    finally show ?thesis .
  qed
  have pos: "0 \<le> sc" by (simp add: sc_def)
  have "real n / real d - real a / real b = (real m - x) * sc"
    unfolding val ratio by (simp only: left_diff_distrib)
  then have "\<bar>real n / real d - real a / real b\<bar> = \<bar>real m - x\<bar> * sc"
    using pos by (simp only: abs_mult abs_of_nonneg)
  also have "\<dots> \<le> (x / 2 ^ 53) * sc"
    using err pos by (rule mult_right_mono)
  also have "\<dots> = (real a / real b) / 2 ^ 53"
    unfolding ratio by simp
  finally show "\<bar>real n / real d - real a / real b\<bar> \<le> (real a / real b) / 2 ^ 53" .
  show "n \<le> c * d" if c: "c < two53" and le: "a \<le> c * b"
  proof -
    have "t = 0"
    proof (cases "0 < s")
      case True
      then show ?thesis by (rule t0)
    next
      case False
      then have "a' = a" using a' by simp
      show ?thesis
      proof (rule ccontr)
        assume "t \<noteq> 0"
        then have "b' * two52 \<le> a" using tpos \<open>a' = a\<close> by simp
        moreover have "2 * b \<le> b'"
          using b' \<open>t \<noteq> 0\<close> by (cases t) simp_all
        ultimately have "2 * b * two52 \<le> a"
          by (meson mult_le_mono1 order_trans)
        then have "2 * b * two52 \<le> c * b" using le by (rule order_trans)
        then have "two53 * b \<le> c * b" by (simp add: two53_two52 ac_simps)
        then have "two53 \<le> c" using assms(1) by (simp only: mult_le_cancel2)
        then show False using c by simp
      qed
    qed
    then have "b' = b" using b' by simp
    have "a' \<le> (c * 2 ^ s) * b'"
      using le unfolding a' \<open>b' = b\<close> by (simp add: mult.commute mult.left_commute)
    from round_half_even_le [OF b'pos this]
    show ?thesis unfolding nd m_def \<open>t = 0\<close> by simp
  qed
qed

lemma tenths_props:
  assumes "0 < d"
  shows "\<bar>real (tenths n d) / 10 - real n / real d\<bar> \<le> 1 / 20"
    and "n \<le> 100 * d \<Longrightarrow> tenths n d \<le> 1000"
proof -
  define q r where "q = (20 * n + d) div (2 * d)" and "r = (20 * n + d) mod (2 * d)"
  have e: "real (20 * n + d) = real q * real (2 * d) + real r"
    unfolding q_def r_def by (metis div_mult_mod_eq of_nat_add of_nat_mult)
  have r: "r < 2 * d" unfolding r_def using assms by simp
  have D: "0 < real d" using assms by simp
  have k: "2 * (real q * real d) - 20 * real n = real d - real r"
    using e by (simp add: algebra_simps)
  have d0: "real d \<noteq> 0" using D by simp
  have t1: "2 * (real q * real d) / (20 * real d) = real q / 10" using d0 by simp
  have t2: "20 * real n / (20 * real d) = real n / real d" by simp
  have "real q / 10 - real n / real d = (2 * (real q * real d) - 20 * real n) / (20 * real d)"
    unfolding diff_divide_distrib t1 t2 ..
  then have v: "real q / 10 - real n / real d = (real d - real r) / (20 * real d)"
    unfolding k .
  have "\<bar>(real d - real r) / (20 * real d)\<bar> \<le> 1 / 20"
  proof -
    have "\<bar>real d - real r\<bar> \<le> real d" using r by (simp add: abs_le_iff)
    then have "\<bar>real d - real r\<bar> / (20 * real d) \<le> real d / (20 * real d)"
      using D by (simp add: divide_right_mono)
    then show ?thesis using D by simp
  qed
  then show "\<bar>real (tenths n d) / 10 - real n / real d\<bar> \<le> 1 / 20"
    unfolding tenths_def q_def [symmetric] v .
  show "tenths n d \<le> 1000" if "n \<le> 100 * d"
  proof -
    have "20 * n + d \<le> 2001 * d" using that by simp
    then have "(20 * n + d) div (2 * d) \<le> (2001 * d) div (2 * d)" by (rule div_le_mono)
    also have "\<dots> = 1000" using assms by simp
    finally show ?thesis by (simp add: tenths_def)
  qed
qed

section \<open>Properties of the rotation\<close>


lemma suc_pos_wrap:
  fixes M N p :: nat
  assumes "0 < M" "Suc (p mod M) = M"
  shows "Suc p mod (N * M) = (Suc (p div M) mod N) * M"
proof -
  have "p div M * M + p mod M = p" by (rule div_mult_mod_eq)
  then have "Suc p = Suc (p div M) * M"
    using assms(2) by (simp only: mult_Suc)
  then show ?thesis by (simp only: mod_mult_mult2)
qed

lemma suc_pos_inside:
  fixes M N p :: nat
  assumes "0 < M" "p < N * M" "Suc (p mod M) < M"
  shows "Suc p mod (N * M) = Suc p" "Suc p div M = p div M" "Suc p mod M = Suc (p mod M)"
proof -
  have q: "p div M < N" using assms(2) by (simp add: less_mult_imp_div_less)
  have dm: "p div M * M + p mod M = p" by (rule div_mult_mod_eq)
  have "Suc p = p div M * M + Suc (p mod M)"
    using dm by linarith
  also have "\<dots> < p div M * M + M" using assms(3) by linarith
  also have "\<dots> = Suc (p div M) * M" by simp
  also have "\<dots> \<le> N * M" using q by (simp only: Suc_le_eq [symmetric] mult_le_mono1)
  finally show "Suc p mod (N * M) = Suc p" by simp
  show "Suc p mod M = Suc (p mod M)" using assms(3) by (simp add: mod_Suc)
  then show "Suc p div M = p div M" using assms(1) by (simp add: div_Suc)
qed

lemma step_at:
  assumes "keys \<noteq> []" "models \<noteq> []" "p < length keys * length models"
  shows "getNextKeyAndModel keys models (cursor_at (length models) p) =
           Inr (some_pair (List.product keys models ! p),
                cursor_at (length models) (Suc p mod (length keys * length models)))"
proof -
  let ?M = "length models" and ?N = "length keys"
  have M: "0 < ?M" and N: "0 < ?N" using assms by auto
  have d: "p div ?M < ?N" using assms(3) by (simp add: less_mult_imp_div_less)
  have m: "p mod ?M < ?M" using M by simp
  have pr: "List.product keys models ! p = (keys ! (p div ?M), models ! (p mod ?M))"
    using assms(3) by (simp add: product_nth)
  show ?thesis
  proof (cases "Suc (p mod ?M) \<ge> ?M")
    case True
    then have e: "Suc (p mod ?M) = ?M" using m by simp
    have w: "Suc p mod (?N * ?M) = (Suc (p div ?M) mod ?N) * ?M"
      using M e by (rule suc_pos_wrap)
    show ?thesis using True d m pr assms M
      by (simp add: getNextKeyAndModel_def cursor_at_def js_nth_def some_pair_def Let_def w)
  next
    case False
    then have lt: "Suc (p mod ?M) < ?M" by simp
    note ins = suc_pos_inside [OF M assms(3) lt]
    show ?thesis using False d m pr assms
      by (simp add: getNextKeyAndModel_def cursor_at_def js_nth_def some_pair_def Let_def ins)
  qed
qed

lemma next_calls_at:
  assumes "keys \<noteq> []" "models \<noteq> []" 
  shows "p < length keys * length models \<Longrightarrow> next_calls keys models n (cursor_at (length models) p) =
     Inr (map (\<lambda>i. some_pair (List.product keys models ! ((p + i) mod (length keys * length models)))) [0..<n],
          cursor_at (length models) ((p + n) mod (length keys * length models)))"
proof (induction n arbitrary: p)
  case 0
  then show ?case by simp
next
  case (Suc n)
  let ?L = "length keys * length models"
  have lt: "Suc p mod ?L < ?L" using Suc.prems by (intro mod_less_divisor) linarith
  have m: "map (\<lambda>i. some_pair (List.product keys models ! ((p + i) mod ?L))) [0..<Suc n]
    = some_pair (List.product keys models ! p) # map (\<lambda>i. some_pair (List.product keys models ! ((Suc p mod ?L + i) mod ?L))) [0..<n]"
    using Suc.prems
    by (simp only: upt_conv_Cons [OF zero_less_Suc] map_Suc_upt [symmetric] list.map map_map o_def)
       (simp add: mod_add_left_eq)
  show ?case
    using Suc.prems 
    by (simp add: step_at [OF assms Suc.prems] Suc.IH [OF lt] m mod_add_left_eq del: upt_Suc)
qed

lemma full_cycle:
  assumes "keys \<noteq> []" "models \<noteq> []" "p < length keys * length models"
  shows "next_calls keys models (length keys * length models) (cursor_at (length models) p) =
     Inr (map some_pair (rotate p (List.product keys models)), cursor_at (length models) p)"
proof -
  let ?L = "length keys * length models"
  let ?P = "List.product keys models"
  have "map (\<lambda>i. some_pair (?P ! ((p + i) mod ?L))) [0..<?L] = map some_pair (rotate p ?P)"
    by (rule nth_equalityI) (simp_all add: nth_rotate)
  moreover have "(p + ?L) mod ?L = p" using assms(3) by simp
  ultimately show ?thesis using next_calls_at [OF assms(1,2,3), of ?L] by simp
qed

lemma valid_cursor_at:
  assumes "currentModelIndex c < M"
  shows "c = cursor_at M (currentKeyIndex c * M + currentModelIndex c)"
  using assms by (simp add: cursor_at_def)


lemma mset_rotate_eq: "mset (rotate n xs) = mset xs"
proof -
  let ?k = "n mod length xs"
  have "mset (rotate n xs) = mset (drop ?k xs) + mset (take ?k xs)"
    by (simp add: rotate_drop_take)
  also have "\<dots> = mset (take ?k xs @ drop ?k xs)"
    by (simp only: mset_append add.commute)
  finally show ?thesis by (simp only: append_take_drop_id)
qed

text \<open>
  Claim C1. For non-empty lists of keys and models and from any cursor inside both lists,
  as many successive calls as there are pairs succeed, hand out every pair of a key and a
  model exactly once (as a multiset: the enumeration of all pairs, rotated to the starting
  position) and bring the cursor back to where it started. When neither list has a
  duplicate, no pair is handed out twice.
\<close>

theorem rotator_visits_every_pair_once:
  assumes "keys \<noteq> []" and "models \<noteq> []"
    and "currentKeyIndex c < length keys" and "currentModelIndex c < length models"
  shows "\<exists>ps. next_calls keys models (length keys * length models) c = Inr (ps, c)
           \<and> length ps = length keys * length models
           \<and> mset ps = mset (map some_pair (List.product keys models))
           \<and> (distinct keys \<and> distinct models \<longrightarrow> distinct ps)"
proof -
  let ?M = "length models" and ?N = "length keys"
  let ?p = "currentKeyIndex c * ?M + currentModelIndex c"
  have c: "c = cursor_at ?M ?p"
    using assms(4) by (rule valid_cursor_at)
  have "?p < currentKeyIndex c * ?M + ?M" using assms(4) by simp
  also have "\<dots> = Suc (currentKeyIndex c) * ?M" by simp
  also have "\<dots> \<le> ?N * ?M" using assms(3) by (simp only: Suc_le_eq [symmetric] mult_le_mono1)
  finally have p: "?p < ?N * ?M" .
  let ?ps = "map some_pair (rotate ?p (List.product keys models))"
  have run: "next_calls keys models (?N * ?M) c = Inr (?ps, c)"
    using full_cycle [OF assms(1,2) p] c by simp
  have inj: "inj some_pair"
    by (rule injI) (simp add: some_pair_def prod_eq_iff)
  have d: "distinct keys \<and> distinct models \<longrightarrow> distinct ?ps"
    by (simp add: distinct_map distinct_product inj_on_subset [OF inj])
  have "mset ?ps = mset (map some_pair (List.product keys models))"
    by (simp add: mset_rotate_eq)
  with run d show ?thesis by simp
qed

theorem rotator_visits_every_pair_once_witness:
  "\<exists>ps. next_calls [''k1'', ''k2''] MODELS 8 \<lparr>currentKeyIndex = 1, currentModelIndex = 2\<rparr>
           = Inr (ps, \<lparr>currentKeyIndex = 1, currentModelIndex = 2\<rparr>)
        \<and> length ps = 8
        \<and> mset ps = mset (map some_pair (List.product [''k1'', ''k2''] MODELS))
        \<and> distinct ps"
proof -
  have len: "length [''k1'', ''k2''] * length MODELS = 8"
    and d: "distinct [''k1'', ''k2''] \<and> distinct MODELS"
    by (simp_all add: MODELS_def)
  from rotator_visits_every_pair_once
         [of "[''k1'', ''k2'']" MODELS "\<lparr>currentKeyIndex = 1, currentModelIndex = 2\<rparr>"]
  show ?thesis
    unfolding len using d by (simp add: MODELS_def del: next_calls.simps)
qed


section \<open>Properties of the resilient call\<close>

lemma catch_block_fields:
  "ls_attemptCount (catch_block t e st) = ls_attemptCount st"
  "ls_fetched (catch_block t e st) = ls_fetched st"
  "ls_cursor (catch_block t e st) = ls_cursor st"
  "ls_lastError (catch_block t e st) = Some e"
  by (simp_all add: catch_block_def Let_def)

lemma catch_block_delays:
  "ls_delays (catch_block t e st) =
     (if js_includes (message e) ''429'' \<or> js_includes (message e) ''quota''
         \<or> js_includes (message e) ''rate limit''
      then ls_delays st
      else if ls_attemptCount st < t then ls_delays st + 1 else ls_delays st)"
  by (simp add: catch_block_def Let_def)

text \<open>One iteration of the loop when a key is configured and attempts remain.\<close>

lemma loop_step:
  assumes "keys \<noteq> []" and "ls_attemptCount st < length keys * length models"
  shows "\<exists>url c'.
           callGemini_loop keys models fetch st =
             (let st1 = st\<lparr>ls_cursor := c', ls_attemptCount := Suc (ls_attemptCount st),
                          ls_fetched := ls_fetched st @ [url]\<rparr>
              in case classify (fetch url (Suc (ls_attemptCount st))) of
                   Returned t \<Rightarrow> \<lparr>outcome = Inr t, final = st1\<rparr>
                 | Continued e \<Rightarrow> callGemini_loop keys models fetch (st1\<lparr>ls_lastError := Some e\<rparr>)
                 | Thrown e \<Rightarrow>
                     callGemini_loop keys models fetch
                       (catch_block (length keys * length models) e st1))"
proof -
  obtain p c' where g: "getNextKeyAndModel keys models (ls_cursor st) = Inr (p, c')"
    using assms(1) by (simp add: getNextKeyAndModel_def Let_def)
  obtain apiKey model where p: "p = (apiKey, model)" by (cases p)
  show ?thesis
    by (subst callGemini_loop.simps) (use assms(2) g p in \<open>auto simp: Let_def\<close>)
qed

lemma loop_done:
  assumes "\<not> ls_attemptCount st < length keys * length models"
  shows "final (callGemini_loop keys models fetch st) = st"
    and "outcome (callGemini_loop keys models fetch st) =
           Inl (case ls_lastError st of
                  Some e \<Rightarrow> e
                | None \<Rightarrow>
                    Error (''All '' @ show_nat (length keys * length models)
                           @ '' API key/model combinations exhausted. Please wait before retrying.''))"
  by (subst callGemini_loop.simps, use assms in simp)+

text \<open>The attempt counter never decreases, and it stays within the total.\<close>

lemma loop_attempts_bounds:
  assumes "keys \<noteq> []"
  shows "ls_attemptCount st \<le> ls_attemptCount (final (callGemini_loop keys models fetch st))
         \<and> (ls_attemptCount st \<le> length keys * length models \<longrightarrow>
              ls_attemptCount (final (callGemini_loop keys models fetch st))
                \<le> length keys * length models)"
proof (induction "length keys * length models - ls_attemptCount st" arbitrary: st)
  case 0
  then have "\<not> ls_attemptCount st < length keys * length models" by simp
  then show ?case by (simp add: loop_done)
next
  case (Suc d)
  then have lt: "ls_attemptCount st < length keys * length models" by simp
  from loop_step [OF assms lt, of fetch] obtain url c' where
    step: "callGemini_loop keys models fetch st =
             (let st1 = st\<lparr>ls_cursor := c', ls_attemptCount := Suc (ls_attemptCount st),
                          ls_fetched := ls_fetched st @ [url]\<rparr>
              in case classify (fetch url (Suc (ls_attemptCount st))) of
                   Returned t \<Rightarrow> \<lparr>outcome = Inr t, final = st1\<rparr>
                 | Continued e \<Rightarrow> callGemini_loop keys models fetch (st1\<lparr>ls_lastError := Some e\<rparr>)
                 | Thrown e \<Rightarrow>
                     callGemini_loop keys models fetch
                       (catch_block (length keys * length models) e st1))"
    by blast
  let ?st1 = "st\<lparr>ls_cursor := c', ls_attemptCount := Suc (ls_attemptCount st),
                  ls_fetched := ls_fetched st @ [url]\<rparr>"
  show ?case
  proof (cases "classify (fetch url (Suc (ls_attemptCount st)))")
    case (Returned t)
    then show ?thesis using lt by (simp add: step Let_def)
  next
    case (Continued e)
    have "d = length keys * length models - ls_attemptCount (?st1\<lparr>ls_lastError := Some e\<rparr>)"
      using Suc.hyps(2) by simp
    from Suc.hyps(1) [OF this] Continued lt show ?thesis
      by (simp add: step Let_def)
  next
    case (Thrown e)
    have "d = length keys * length models
              - ls_attemptCount (catch_block (length keys * length models) e ?st1)"
      using Suc.hyps(2) by (simp add: catch_block_fields)
    from Suc.hyps(1) [OF this] Thrown lt show ?thesis
      by (simp add: step Let_def catch_block_fields)
  qed
qed

text \<open>The loop ends with an error only when every attempt has been made.\<close>

lemma loop_fails_only_exhausted:
  assumes "keys \<noteq> []" and "ls_attemptCount st \<le> length keys * length models"
    and "outcome (callGemini_loop keys models fetch st) = Inl e"
  shows "ls_attemptCount (final (callGemini_loop keys models fetch st))
           = length keys * length models"
  using assms(2,3)
proof (induction "length keys * length models - ls_attemptCount st" arbitrary: st)
  case 0
  then have "\<not> ls_attemptCount st < length keys * length models" by simp
  then show ?case using "0.prems" by (simp add: loop_done)
next
  case (Suc d)
  then have lt: "ls_attemptCount st < length keys * length models" by simp
  from loop_step [OF assms(1) lt, of fetch] obtain url c' where
    step: "callGemini_loop keys models fetch st =
             (let st1 = st\<lparr>ls_cursor := c', ls_attemptCount := Suc (ls_attemptCount st),
                          ls_fetched := ls_fetched st @ [url]\<rparr>
              in case classify (fetch url (Suc (ls_attemptCount st))) of
                   Returned t \<Rightarrow> \<lparr>outcome = Inr t, final = st1\<rparr>
                 | Continued e \<Rightarrow> callGemini_loop keys models fetch (st1\<lparr>ls_lastError := Some e\<rparr>)
                 | Thrown e \<Rightarrow>
                     callGemini_loop keys models fetch
                       (catch_block (length keys * length models) e st1))"
    by blast
  let ?st1 = "st\<lparr>ls_cursor := c', ls_attemptCount := Suc (ls_attemptCount st),
                  ls_fetched := ls_fetched st @ [url]\<rparr>"
  show ?case
  proof (cases "classify (fetch url (Suc (ls_attemptCount st)))")
    case (Returned t)
    then show ?thesis using Suc.prems(2) by (simp add: step Let_def)
  next
    case (Continued e')
    have "d = length keys * length models - ls_attemptCount (?st1\<lparr>ls_lastError := Some e'\<rparr>)"
      using Suc.hyps(2) by simp
    from Suc.hyps(1) [OF this] Continued lt Suc.prems(2) show ?thesis
      by (simp add: step Let_def)
  next
    case (Thrown e')
    have "d = length keys * length models
              - ls_attemptCount (catch_block (length keys * length models) e' ?st1)"
      using Suc.hyps(2) by (simp add: catch_block_fields)
    from Suc.hyps(1) [OF this] Thrown lt Suc.prems(2) show ?thesis
      by (simp add: step Let_def catch_block_fields)
  qed
qed


lemma loop_makes_attempt:
  assumes "keys \<noteq> []" and "ls_attemptCount st < length keys * length models"
  shows "ls_attemptCount st < ls_attemptCount (final (callGemini_loop keys models fetch st))"
proof -
  from loop_step [OF assms, of fetch] obtain url c' where
    step: "callGemini_loop keys models fetch st =
             (let st1 = st\<lparr>ls_cursor := c', ls_attemptCount := Suc (ls_attemptCount st),
                          ls_fetched := ls_fetched st @ [url]\<rparr>
              in case classify (fetch url (Suc (ls_attemptCount st))) of
                   Returned t \<Rightarrow> \<lparr>outcome = Inr t, final = st1\<rparr>
                 | Continued e \<Rightarrow> callGemini_loop keys models fetch (st1\<lparr>ls_lastError := Some e\<rparr>)
                 | Thrown e \<Rightarrow>
                     callGemini_loop keys models fetch
                       (catch_block (length keys * length models) e st1))"
    by blast
  let ?st1 = "st\<lparr>ls_cursor := c', ls_attemptCount := Suc (ls_attemptCount st),
                  ls_fetched := ls_fetched st @ [url]\<rparr>"
  show ?thesis
  proof (cases "classify (fetch url (Suc (ls_attemptCount st)))")
    case (Returned t)
    then show ?thesis by (simp add: step Let_def)
  next
    case (Continued e)
    from loop_attempts_bounds [OF assms(1), of "?st1\<lparr>ls_lastError := Some e\<rparr>" models fetch]
    show ?thesis using Continued by (simp add: step Let_def)
  next
    case (Thrown e)
    from loop_attempts_bounds
           [OF assms(1), of "catch_block (length keys * length models) e ?st1" models fetch]
    show ?thesis using Thrown by (simp add: step Let_def catch_block_fields)
  qed
qed

lemma classify_retryable:
  "retryable_status r \<Longrightarrow> classify r = Continued (failure_reason r)"
  by (cases r) (auto simp: retryable_status_def failure_reason_def response_ok_def)

lemma classify_other_failure:
  "other_failure_status r \<Longrightarrow> classify r = Thrown (failure_reason r)"
  by (cases r) (auto simp: other_failure_status_def failure_reason_def)

text \<open>Retryable statuses on the attempts up to \<open>j\<close> bring the loop to attempt \<open>j\<close> without a pause.\<close>

lemma loop_skip_retryable:
  assumes "keys \<noteq> []" and "j \<le> length keys * length models"
  shows "ls_attemptCount st \<le> j \<Longrightarrow>
         (\<forall>i url. ls_attemptCount st < i \<and> i \<le> j \<longrightarrow> retryable_status (fetch url i)) \<Longrightarrow>
         \<exists>st'. callGemini_loop keys models fetch st = callGemini_loop keys models fetch st'
               \<and> ls_attemptCount st' = j \<and> ls_delays st' = ls_delays st
               \<and> length (ls_fetched st') = length (ls_fetched st) + (j - ls_attemptCount st)
               \<and> (ls_attemptCount st < j \<longrightarrow>
                    ls_fetched st' \<noteq> []
                    \<and> ls_lastError st' = Some (failure_reason (fetch (last (ls_fetched st')) j)))"
proof (induction "j - ls_attemptCount st" arbitrary: st)
  case 0
  then have "ls_attemptCount st = j" by simp
  then show ?case by (intro exI [of _ st]) simp
next
  case (Suc d)
  then have lt: "ls_attemptCount st < length keys * length models" and ltj: "ls_attemptCount st < j"
    using assms(2) by simp_all
  from loop_step [OF assms(1) lt, of fetch] obtain url c' where
    step: "callGemini_loop keys models fetch st =
             (let st1 = st\<lparr>ls_cursor := c', ls_attemptCount := Suc (ls_attemptCount st),
                          ls_fetched := ls_fetched st @ [url]\<rparr>
              in case classify (fetch url (Suc (ls_attemptCount st))) of
                   Returned t \<Rightarrow> \<lparr>outcome = Inr t, final = st1\<rparr>
                 | Continued e \<Rightarrow> callGemini_loop keys models fetch (st1\<lparr>ls_lastError := Some e\<rparr>)
                 | Thrown e \<Rightarrow>
                     callGemini_loop keys models fetch
                       (catch_block (length keys * length models) e st1))"
    by blast
  let ?e = "failure_reason (fetch url (Suc (ls_attemptCount st)))"
  let ?st2 = "st\<lparr>ls_cursor := c', ls_attemptCount := Suc (ls_attemptCount st),
                  ls_fetched := ls_fetched st @ [url], ls_lastError := Some ?e\<rparr>"
  have "retryable_status (fetch url (Suc (ls_attemptCount st)))"
    using Suc.prems(2) ltj by simp
  then have cl: "classify (fetch url (Suc (ls_attemptCount st))) = Continued ?e"
    by (rule classify_retryable)
  have eq: "callGemini_loop keys models fetch st = callGemini_loop keys models fetch ?st2"
    by (simp add: step Let_def cl)
  have d: "d = j - ls_attemptCount ?st2" using Suc.hyps(2) by simp
  have le: "ls_attemptCount ?st2 \<le> j" using ltj by simp
  have rest: "\<forall>i url. ls_attemptCount ?st2 < i \<and> i \<le> j \<longrightarrow> retryable_status (fetch url i)"
    using Suc.prems(2) by simp
  from Suc.hyps(1) [OF d le rest] obtain st' where
    st': "callGemini_loop keys models fetch ?st2 = callGemini_loop keys models fetch st'"
      "ls_attemptCount st' = j" "ls_delays st' = ls_delays st"
      "length (ls_fetched st') = length (ls_fetched ?st2) + (j - ls_attemptCount ?st2)"
      "ls_attemptCount ?st2 < j \<longrightarrow>
         ls_fetched st' \<noteq> []
         \<and> ls_lastError st' = Some (failure_reason (fetch (last (ls_fetched st')) j))"
    by auto
  show ?case
  proof (cases "Suc (ls_attemptCount st) = j")
    case True
    show ?thesis
      by (intro exI [of _ ?st2]) (use eq True in simp)
  next
    case False
    then have "ls_attemptCount ?st2 < j" using ltj by simp
    with st' eq ltj show ?thesis
      by (intro exI [of _ st']) simp
  qed
qed

lemma catch_block_pause:
  "ls_attemptCount st < t \<Longrightarrow>
   ls_delays (catch_block t e st) = ls_delays st + (if mentions_rate_limit e then 0 else 1)"
  by (simp add: catch_block_def Let_def mentions_rate_limit_def)

lemma catch_block_delays_le: "ls_delays st \<le> ls_delays (catch_block t e st)"
  by (simp add: catch_block_def Let_def)

text \<open>
  The loop only appends to the URLs fetched, never takes back a pause, and keeps an error
  recorded once there is one.
\<close>

lemma loop_keeps:
  assumes "keys \<noteq> []"
  shows "(\<exists>rest. ls_fetched (final (callGemini_loop keys models fetch st)) = ls_fetched st @ rest)
         \<and> ls_delays st \<le> ls_delays (final (callGemini_loop keys models fetch st))
         \<and> (ls_lastError st \<noteq> None \<longrightarrow>
              ls_lastError (final (callGemini_loop keys models fetch st)) \<noteq> None)"
proof (induction "length keys * length models - ls_attemptCount st" arbitrary: st)
  case 0
  then have "\<not> ls_attemptCount st < length keys * length models" by simp
  then show ?case by (simp add: loop_done)
next
  case (Suc d)
  then have lt: "ls_attemptCount st < length keys * length models" by simp
  from loop_step [OF assms lt, of fetch] obtain url c' where
    step: "callGemini_loop keys models fetch st =
             (let st1 = st\<lparr>ls_cursor := c', ls_attemptCount := Suc (ls_attemptCount st),
                          ls_fetched := ls_fetched st @ [url]\<rparr>
              in case classify (fetch url (Suc (ls_attemptCount st))) of
                   Returned t \<Rightarrow> \<lparr>outcome = Inr t, final = st1\<rparr>
                 | Continued e \<Rightarrow> callGemini_loop keys models fetch (st1\<lparr>ls_lastError := Some e\<rparr>)
                 | Thrown e \<Rightarrow>
                     callGemini_loop keys models fetch
                       (catch_block (length keys * length models) e st1))"
    by blast
  let ?st1 = "st\<lparr>ls_cursor := c', ls_attemptCount := Suc (ls_attemptCount st),
                  ls_fetched := ls_fetched st @ [url]\<rparr>"
  show ?case
  proof (cases "classify (fetch url (Suc (ls_attemptCount st)))")
    case (Returned t)
    then show ?thesis by (simp add: step Let_def)
  next
    case (Continued e)
    define st2 where "st2 = ?st1\<lparr>ls_lastError := Some e\<rparr>"
    have eq: "callGemini_loop keys models fetch st = callGemini_loop keys models fetch st2"
      using Continued by (simp add: step Let_def st2_def)
    have "d = length keys * length models - ls_attemptCount st2"
      using Suc.hyps(2) by (simp add: st2_def)
    from Suc.hyps(1) [OF this] obtain rest where
      ih: "ls_fetched (final (callGemini_loop keys models fetch st2)) = ls_fetched st2 @ rest"
        "ls_delays st2 \<le> ls_delays (final (callGemini_loop keys models fetch st2))"
        "ls_lastError st2 \<noteq> None \<longrightarrow>
           ls_lastError (final (callGemini_loop keys models fetch st2)) \<noteq> None"
      by blast
    have f: "ls_fetched st2 = ls_fetched st @ [url]" "ls_delays st2 = ls_delays st"
      "ls_lastError st2 \<noteq> None" by (simp_all add: st2_def)
    have "ls_fetched (final (callGemini_loop keys models fetch st)) = ls_fetched st @ (url # rest)"
      using ih(1) f(1) by (simp add: eq)
    then have "\<exists>rest. ls_fetched (final (callGemini_loop keys models fetch st)) = ls_fetched st @ rest"
      by blast
    then show ?thesis using ih(2,3) f(2,3) by (simp add: eq)
  next
    case (Thrown e)
    define st2 where "st2 = catch_block (length keys * length models) e ?st1"
    have eq: "callGemini_loop keys models fetch st = callGemini_loop keys models fetch st2"
      using Thrown by (simp add: step Let_def st2_def)
    have "d = length keys * length models - ls_attemptCount st2"
      using Suc.hyps(2) by (simp add: st2_def catch_block_fields)
    from Suc.hyps(1) [OF this] obtain rest where
      ih: "ls_fetched (final (callGemini_loop keys models fetch st2)) = ls_fetched st2 @ rest"
        "ls_delays st2 \<le> ls_delays (final (callGemini_loop keys models fetch st2))"
        "ls_lastError st2 \<noteq> None \<longrightarrow>
           ls_lastError (final (callGemini_loop keys models fetch st2)) \<noteq> None"
      by blast
    have f: "ls_fetched st2 = ls_fetched st @ [url]" "ls_delays st \<le> ls_delays st2"
      "ls_lastError st2 \<noteq> None"
      using catch_block_delays_le [of ?st1 "length keys * length models" e]
      by (simp_all add: st2_def catch_block_fields)
    have "ls_fetched (final (callGemini_loop keys models fetch st)) = ls_fetched st @ (url # rest)"
      using ih(1) f(1) by (simp add: eq)
    then have "\<exists>rest. ls_fetched (final (callGemini_loop keys models fetch st)) = ls_fetched st @ rest"
      by blast
    then show ?thesis using ih(2,3) f(2,3) by (simp add: eq)
  qed
qed


text \<open>
  Claim C3. With at least one key and one model, when every attempt gets one of the
  statuses 429, 403, 404 and 400, the call makes as many attempts as there are pairs, one
  fetch each and no pause, and then throws the reason recorded for the last of them.
\<close>

theorem callGemini_exhausts_all_pairs:
  assumes "keys \<noteq> []" and "models \<noteq> []"
    and "\<forall>i url. 1 \<le> i \<and> i \<le> length keys * length models \<longrightarrow> retryable_status (fetch url i)"
  shows "ls_attemptCount (final (callGemini keys models fetch c)) = length keys * length models
         \<and> length (ls_fetched (final (callGemini keys models fetch c)))
             = length keys * length models
         \<and> ls_delays (final (callGemini keys models fetch c)) = 0
         \<and> outcome (callGemini keys models fetch c)
             = Inl (failure_reason
                      (fetch (last (ls_fetched (final (callGemini keys models fetch c))))
                         (length keys * length models)))"
proof -
  let ?T = "length keys * length models"
  have pos: "0 < ?T" using assms(1,2) by simp
  have r: "\<forall>i url. ls_attemptCount (initial_state c) < i \<and> i \<le> ?T \<longrightarrow> retryable_status (fetch url i)"
    using assms(3) by (simp add: initial_state_def Suc_le_eq)
  from loop_skip_retryable [OF assms(1) order_refl _ r]
  obtain st' where st':
    "callGemini_loop keys models fetch (initial_state c) = callGemini_loop keys models fetch st'"
    "ls_attemptCount st' = ?T" "ls_delays st' = 0" "length (ls_fetched st') = ?T"
    "ls_lastError st' = Some (failure_reason (fetch (last (ls_fetched st')) ?T))"
    using pos by (auto simp: initial_state_def)
  have "\<not> ls_attemptCount st' < ?T" using st'(2) by simp
  note fin = loop_done [OF this, of fetch]
  have "callGemini keys models fetch c = callGemini_loop keys models fetch st'"
    using assms(1) st'(1) by (simp add: callGemini_def)
  then show ?thesis using fin st' by simp
qed

theorem callGemini_exhausts_all_pairs_witness:
  "ls_attemptCount (final (callGemini [''key-1'', ''key-2''] MODELS always_429 initial_cursor)) = 8
   \<and> ls_delays (final (callGemini [''key-1'', ''key-2''] MODELS always_429 initial_cursor)) = 0
   \<and> outcome (callGemini [''key-1'', ''key-2''] MODELS always_429 initial_cursor)
       = Inl (Error ''Rate limit: 429'')"
proof -
  have r: "\<forall>i url. 1 \<le> i \<and> i \<le> length [''key-1'', ''key-2''] * length MODELS
             \<longrightarrow> retryable_status (always_429 url i)"
    by (simp add: retryable_status_def always_429_def)
  have f: "failure_reason (always_429 url i) = Error ''Rate limit: 429''" for url i
    by (simp add: failure_reason_def always_429_def response_ok_def show_nat.simps digit_def)
  from callGemini_exhausts_all_pairs [of "[''key-1'', ''key-2'']" MODELS always_429 initial_cursor, OF _ _ r]
  show ?thesis by (simp add: f MODELS_def)
qed

text \<open>
  Claim C2, as the code has it. When attempt \<open>k\<close>, not the last one, gets a status outside
  200 to 299 other than 429, 403, 404 and 400, after retryable statuses on all earlier
  attempts, the call does not stop there. The error of that attempt is caught: the call
  goes on as the loop does from a state with \<open>k\<close> attempts and \<open>k\<close> fetches made, that
  error recorded as the last error, and one pause, or none when the message of the error
  mentions 429, quota or rate limit. More than \<open>k\<close> attempts and fetches are made, an error
  is recorded at the end, a pause that was made is counted at the end, and an error is
  thrown only after all attempts. When attempt \<open>k + 1\<close> yields a text, that text is
  returned after \<open>k + 1\<close> attempts and fetches, with the error of attempt \<open>k\<close> as the
  last error and that one pause or none.
\<close>

theorem callGemini_goes_on_after_other_status:
  assumes "keys \<noteq> []"
    and "1 \<le> k" and "k < length keys * length models"
    and "\<forall>i url. 1 \<le> i \<and> i < k \<longrightarrow> retryable_status (fetch url i)"
    and "\<forall>url. other_failure_status (fetch url k)"
  shows "k < ls_attemptCount (final (callGemini keys models fetch c))
         \<and> ls_attemptCount (final (callGemini keys models fetch c)) \<le> length keys * length models
         \<and> (\<forall>e. outcome (callGemini keys models fetch c) = Inl e \<longrightarrow>
               ls_attemptCount (final (callGemini keys models fetch c))
                 = length keys * length models)
         \<and> (\<exists>st2. callGemini keys models fetch c = callGemini_loop keys models fetch st2
               \<and> ls_attemptCount st2 = k
               \<and> length (ls_fetched st2) = k
               \<and> ls_lastError st2 = Some (failure_reason (fetch (last (ls_fetched st2)) k))
               \<and> ls_delays st2
                   = (if mentions_rate_limit (failure_reason (fetch (last (ls_fetched st2)) k))
                      then 0 else 1))
         \<and> k < length (ls_fetched (final (callGemini keys models fetch c)))
         \<and> ls_lastError (final (callGemini keys models fetch c)) \<noteq> None
         \<and> (\<not> mentions_rate_limit
                 (failure_reason
                    (fetch (ls_fetched (final (callGemini keys models fetch c)) ! (k - 1)) k)) \<longrightarrow>
               1 \<le> ls_delays (final (callGemini keys models fetch c)))
         \<and> (\<forall>t. (\<forall>url. classify (fetch url (Suc k)) = Returned t) \<longrightarrow>
               outcome (callGemini keys models fetch c) = Inr t
               \<and> ls_attemptCount (final (callGemini keys models fetch c)) = Suc k
               \<and> length (ls_fetched (final (callGemini keys models fetch c))) = Suc k
               \<and> ls_lastError (final (callGemini keys models fetch c))
                   = Some (failure_reason
                             (fetch (ls_fetched (final (callGemini keys models fetch c)) ! (k - 1)) k))
               \<and> ls_delays (final (callGemini keys models fetch c))
                   = (if mentions_rate_limit
                           (failure_reason
                              (fetch (ls_fetched (final (callGemini keys models fetch c)) ! (k - 1)) k))
                      then 0 else 1))"
proof -
  let ?T = "length keys * length models"
  let ?R = "callGemini keys models fetch c"
  have call: "?R = callGemini_loop keys models fetch (initial_state c)"
    using assms(1) by (simp add: callGemini_def)
  have k1: "k - 1 \<le> ?T" using assms(3) by simp
  have r: "\<forall>i url. ls_attemptCount (initial_state c) < i \<and> i \<le> k - 1
             \<longrightarrow> retryable_status (fetch url i)"
    using assms(4) by (auto simp: initial_state_def)
  from loop_skip_retryable [OF assms(1) k1 _ r]
  obtain st' where st':
    "callGemini_loop keys models fetch (initial_state c) = callGemini_loop keys models fetch st'"
    "ls_attemptCount st' = k - 1" "ls_delays st' = 0" "length (ls_fetched st') = k - 1"
    by (auto simp: initial_state_def)
  have lt: "ls_attemptCount st' < ?T" using st'(2) assms(2,3) by simp
  from loop_step [OF assms(1) lt, of fetch] obtain url c' where
    step: "callGemini_loop keys models fetch st' =
             (let st1 = st'\<lparr>ls_cursor := c', ls_attemptCount := Suc (ls_attemptCount st'),
                          ls_fetched := ls_fetched st' @ [url]\<rparr>
              in case classify (fetch url (Suc (ls_attemptCount st'))) of
                   Returned t \<Rightarrow> \<lparr>outcome = Inr t, final = st1\<rparr>
                 | Continued e \<Rightarrow> callGemini_loop keys models fetch (st1\<lparr>ls_lastError := Some e\<rparr>)
                 | Thrown e \<Rightarrow>
                     callGemini_loop keys models fetch
                       (catch_block (length keys * length models) e st1))"
    by blast
  have sk: "Suc (ls_attemptCount st') = k" using st'(2) assms(2) by simp
  define err where "err = failure_reason (fetch url k)"
  define st1 where "st1 = st'\<lparr>ls_cursor := c', ls_attemptCount := k,
                                 ls_fetched := ls_fetched st' @ [url]\<rparr>"
  define st2 where "st2 = catch_block ?T err st1"
  have "classify (fetch url k) = Thrown err"
    using assms(5) by (simp add: classify_other_failure err_def)
  then have eq: "?R = callGemini_loop keys models fetch st2"
    by (simp add: call st'(1) step sk Let_def st2_def st1_def)
  have a1: "ls_attemptCount st1 < ?T" using assms(3) by (simp add: st1_def)
  have a2: "ls_attemptCount st2 = k" by (simp add: st2_def st1_def catch_block_fields)
  have f2: "ls_fetched st2 = ls_fetched st' @ [url]"
    by (simp add: st2_def st1_def catch_block_fields)
  have len2: "length (ls_fetched st2) = k" using st'(4) assms(2) by (simp add: f2)
  have last2: "last (ls_fetched st2) = url" by (simp add: f2)
  have nth2: "(ls_fetched st2 @ rest) ! (k - 1) = url" for rest
    using st'(4) by (simp add: f2 nth_append)
  have e2: "ls_lastError st2 = Some err" by (simp add: st2_def catch_block_fields)
  have d2: "ls_delays st2 = (if mentions_rate_limit err then 0 else 1)"
    using catch_block_pause [OF a1, of err] st'(3) by (simp add: st2_def st1_def)
  have lt2: "ls_attemptCount st2 < ?T" using assms(3) a2 by simp
  have more: "k < ls_attemptCount (final ?R)"
    using loop_makes_attempt [OF assms(1) lt2, of fetch] by (simp add: eq a2)
  have le: "ls_attemptCount (final ?R) \<le> ?T"
    using loop_attempts_bounds [OF assms(1), of st2 models fetch] lt2 by (simp add: eq)
  have ex: "ls_attemptCount (final ?R) = ?T" if "outcome ?R = Inl e" for e
    using loop_fails_only_exhausted [OF assms(1), of st2 models fetch e] lt2 that
    by (simp add: eq)
  have mid: "\<exists>st2. ?R = callGemini_loop keys models fetch st2
               \<and> ls_attemptCount st2 = k
               \<and> length (ls_fetched st2) = k
               \<and> ls_lastError st2 = Some (failure_reason (fetch (last (ls_fetched st2)) k))
               \<and> ls_delays st2
                   = (if mentions_rate_limit (failure_reason (fetch (last (ls_fetched st2)) k))
                      then 0 else 1)"
  proof -
    have "ls_lastError st2 = Some (failure_reason (fetch (last (ls_fetched st2)) k))"
      by (simp add: e2 last2 err_def)
    moreover have "ls_delays st2
                     = (if mentions_rate_limit (failure_reason (fetch (last (ls_fetched st2)) k))
                        then 0 else 1)"
      by (simp add: d2 last2 err_def)
    ultimately show ?thesis using eq a2 len2 by blast
  qed
  from loop_step [OF assms(1) lt2, of fetch] obtain url2 c2 where
    step2: "callGemini_loop keys models fetch st2 =
             (let st1 = st2\<lparr>ls_cursor := c2, ls_attemptCount := Suc (ls_attemptCount st2),
                          ls_fetched := ls_fetched st2 @ [url2]\<rparr>
              in case classify (fetch url2 (Suc (ls_attemptCount st2))) of
                   Returned t \<Rightarrow> \<lparr>outcome = Inr t, final = st1\<rparr>
                 | Continued e \<Rightarrow> callGemini_loop keys models fetch (st1\<lparr>ls_lastError := Some e\<rparr>)
                 | Thrown e \<Rightarrow>
                     callGemini_loop keys models fetch
                       (catch_block (length keys * length models) e st1))"
    by blast
  from loop_keeps [OF assms(1), of models fetch st2] obtain rest where
    keep: "ls_fetched (final ?R) = ls_fetched st2 @ rest"
      "ls_delays st2 \<le> ls_delays (final ?R)"
      "ls_lastError (final ?R) \<noteq> None"
    using e2 unfolding eq by auto
  have nth: "ls_fetched (final ?R) ! (k - 1) = url"
    unfolding keep(1) by (rule nth2)
  have "length (ls_fetched st2) < length (ls_fetched (final ?R))"
  proof (cases "classify (fetch url2 (Suc (ls_attemptCount st2)))")
    case (Returned t)
    then show ?thesis by (simp add: eq step2 Let_def)
  next
    case (Continued e)
    from loop_keeps [OF assms(1), of models fetch
        "st2\<lparr>ls_cursor := c2, ls_attemptCount := Suc (ls_attemptCount st2),
              ls_fetched := ls_fetched st2 @ [url2], ls_lastError := Some e\<rparr>"]
    show ?thesis using Continued by (auto simp: eq step2 Let_def)
  next
    case (Thrown e)
    from loop_keeps [OF assms(1), of models fetch
        "catch_block ?T e (st2\<lparr>ls_cursor := c2, ls_attemptCount := Suc (ls_attemptCount st2),
              ls_fetched := ls_fetched st2 @ [url2]\<rparr>)"]
    show ?thesis using Thrown by (auto simp: eq step2 Let_def catch_block_fields)
  qed
  then have longer: "k < length (ls_fetched (final ?R))" by (simp add: len2)
  have pause: "\<not> mentions_rate_limit (failure_reason (fetch (ls_fetched (final ?R) ! (k - 1)) k))
               \<longrightarrow> 1 \<le> ls_delays (final ?R)"
  proof
    assume "\<not> mentions_rate_limit (failure_reason (fetch (ls_fetched (final ?R) ! (k - 1)) k))"
    then have "\<not> mentions_rate_limit err" unfolding nth err_def .
    then have "ls_delays st2 = 1" by (simp add: d2)
    then show "1 \<le> ls_delays (final ?R)" using keep(2) by simp
  qed
  have ok: "outcome ?R = Inr t
            \<and> ls_attemptCount (final ?R) = Suc k
            \<and> length (ls_fetched (final ?R)) = Suc k
            \<and> ls_lastError (final ?R)
                = Some (failure_reason (fetch (ls_fetched (final ?R) ! (k - 1)) k))
            \<and> ls_delays (final ?R)
                = (if mentions_rate_limit
                        (failure_reason (fetch (ls_fetched (final ?R) ! (k - 1)) k))
                   then 0 else 1)"
    if "\<forall>url. classify (fetch url (Suc k)) = Returned t" for t
  proof -
    have cl: "classify (fetch url2 (Suc k)) = Returned t" using that by simp
    have res: "?R = \<lparr>outcome = Inr t,
                     final = st2\<lparr>ls_cursor := c2, ls_attemptCount := Suc k,
                                 ls_fetched := ls_fetched st2 @ [url2]\<rparr>\<rparr>"
      by (simp add: eq step2 a2 Let_def cl)
    have o: "outcome ?R = Inr t" "ls_attemptCount (final ?R) = Suc k"
      "length (ls_fetched (final ?R)) = Suc k"
      "ls_lastError (final ?R) = Some err"
      "ls_delays (final ?R) = (if mentions_rate_limit err then 0 else 1)"
      by (simp_all add: res len2 e2 d2)
    show ?thesis using o unfolding nth err_def [symmetric] by simp
  qed
  from more le ex mid longer keep(3) pause ok show ?thesis by blast
qed

theorem callGemini_goes_on_after_other_status_witness:
  "outcome (callGemini [''key-1'', ''key-2''] MODELS busy_failing_then_ok initial_cursor)
       = Inr ''ok''
   \<and> ls_attemptCount
         (final (callGemini [''key-1'', ''key-2''] MODELS busy_failing_then_ok initial_cursor)) = 3
   \<and> length (ls_fetched
         (final (callGemini [''key-1'', ''key-2''] MODELS busy_failing_then_ok initial_cursor))) = 3
   \<and> ls_lastError
         (final (callGemini [''key-1'', ''key-2''] MODELS busy_failing_then_ok initial_cursor))
       = Some (Error ''API request failed with status 500'')
   \<and> ls_delays
         (final (callGemini [''key-1'', ''key-2''] MODELS busy_failing_then_ok initial_cursor)) = 1"
proof -
  have r: "\<forall>i url. 1 \<le> i \<and> i < 2 \<longrightarrow> retryable_status (busy_failing_then_ok url i)"
    by (simp add: retryable_status_def busy_failing_then_ok_def)
  have o: "\<forall>url. other_failure_status (busy_failing_then_ok url 2)"
    by (simp add: other_failure_status_def busy_failing_then_ok_def response_ok_def)
  have s: "\<forall>url. classify (busy_failing_then_ok url (Suc 2)) = Returned ''ok''"
    by (simp add: busy_failing_then_ok_def response_ok_def)
  have f: "failure_reason (busy_failing_then_ok url 2) = Error ''API request failed with status 500''"
    for url
    by (simp add: failure_reason_def busy_failing_then_ok_def response_ok_def show_nat.simps
          digit_def)
  have m: "\<not> mentions_rate_limit (Error ''API request failed with status 500'')"
    by (simp add: mentions_rate_limit_def)
  from callGemini_goes_on_after_other_status
         [of "[''key-1'', ''key-2'']" 2 MODELS busy_failing_then_ok initial_cursor, OF _ _ _ r o] s
  show ?thesis by (simp add: MODELS_def f m)
qed

text \<open>
  Claim C2, as stated, fails: with one key, status 500 on the first attempt and a text on
  the second, the call returns the text after two fetches and one pause, where the claim
  has it throw after the first.
\<close>

theorem callGemini_other_status_counterexample:
  "other_failure_status (failing_then_ok [] 1)
   \<and> outcome (callGemini [''key-1''] MODELS failing_then_ok initial_cursor) = Inr ''ok''
   \<and> ls_attemptCount (final (callGemini [''key-1''] MODELS failing_then_ok initial_cursor)) = 2
   \<and> length (ls_fetched (final (callGemini [''key-1''] MODELS failing_then_ok initial_cursor))) = 2
   \<and> ls_delays (final (callGemini [''key-1''] MODELS failing_then_ok initial_cursor)) = 1"
  by (simp add: callGemini_def callGemini_loop.simps MODELS_def failing_then_ok_def
        initial_cursor_def initial_state_def getNextKeyAndModel_def js_nth_def Let_def
        request_url_def response_ok_def show_nat.simps digit_def catch_block_def
        other_failure_status_def)

section \<open>Properties of the fallback parsers\<close>

lemma question_lines_Cons:
  "question_lines (line # lines) =
     (case match_Q line of None \<Rightarrow> {} | Some r \<Rightarrow> {trim r}) \<union> question_lines lines"
  by (auto simp: question_lines_def split: option.splits)

lemma question_lines_Nil: "question_lines [] = {}"
  by (simp add: question_lines_def)

lemma flashcard_loop_questions:
  "flashcard_loop fs cur lines = (fs', cur') \<Longrightarrow>
   fc_question ` (set fs' \<union> set_option cur')
     \<subseteq> fc_question ` (set fs \<union> set_option cur) \<union> question_lines lines"
proof (induction lines arbitrary: fs cur)
  case Nil
  then show ?case by (simp add: question_lines_Nil)
next
  case (Cons line lines)
  show ?case
  proof (cases "match_Q line")
    case (Some r)
    let ?fs1 = "case cur of None \<Rightarrow> fs | Some q \<Rightarrow> fs @ [q]"
    let ?cur1 = "Some \<lparr>fc_question = trim r, fc_answer = []\<rparr>"
    have "flashcard_loop ?fs1 ?cur1 lines = (fs', cur')"
      using Cons.prems Some by simp
    from Cons.IH [OF this]
    have ih: "fc_question ` (set fs' \<union> set_option cur')
            \<subseteq> fc_question ` (set ?fs1 \<union> set_option ?cur1) \<union> question_lines lines" .
    have "set ?fs1 \<subseteq> set fs \<union> set_option cur"
      by (cases cur) simp_all
    then have "fc_question ` (set ?fs1 \<union> set_option ?cur1)
                 \<subseteq> fc_question ` (set fs \<union> set_option cur) \<union> {trim r}"
      by auto
    with ih show ?thesis
      unfolding question_lines_Cons Some option.case by blast
  next
    case None
    have ql: "question_lines (line # lines) = question_lines lines"
      by (simp add: question_lines_Cons None)
    show ?thesis
    proof (cases "match_A line")
      case noA: None
      then have "flashcard_loop fs cur lines = (fs', cur')"
        using Cons.prems None by (simp split: option.splits)
      from Cons.IH [OF this] show ?thesis unfolding ql .
    next
      case (Some r)
      show ?thesis
      proof (cases cur)
        case noQ: None
        then have "flashcard_loop fs cur lines = (fs', cur')"
          using Cons.prems None Some by simp
        from Cons.IH [OF this] show ?thesis unfolding ql .
      next
        case (Some q)
        then have "flashcard_loop fs (Some (q\<lparr>fc_answer := trim r\<rparr>)) lines = (fs', cur')"
          using Cons.prems None \<open>match_A line = Some r\<close> by simp
        from Cons.IH [OF this] show ?thesis unfolding ql Some by simp
      qed
    qed
  qed
qed

lemma flashcard_loop_no_question:
  "\<forall>line\<in>set lines. match_Q line = None \<Longrightarrow> flashcard_loop fs None lines = (fs, None)"
  by (induction lines) (auto split: option.splits)

lemma match_q_line: "match_Q (q_line c) = Some (CHR '' '' # fc_question c)"
  by (simp add: match_Q_def lower_ascii_def q_line_def)

lemma match_a_line:
  "match_Q (a_line c) = None" "match_A (a_line c) = Some (CHR '' '' # fc_answer c)"
  by (simp_all add: match_Q_def match_A_def lower_ascii_def a_line_def)

lemma is_space_literals: "is_space (CHR '' '')" "\<not> is_space (CHR ''Q'')" "\<not> is_space (CHR ''A'')"
  by (simp_all add: is_space_def)

lemma dropWhile_rev_last: "s \<noteq> [] \<Longrightarrow> \<not> P (last s) \<Longrightarrow> dropWhile P (rev s) = rev s"
  by (induction s rule: rev_induct) simp_all

lemma trim_clean: "clean s \<Longrightarrow> trim (CHR '' '' # s) = s"
proof (cases s)
  case Nil
  then show ?thesis by (simp add: trim_def is_space_literals)
next
  case (Cons c cs)
  assume "clean s"
  then have h: "\<not> is_space c" and l: "\<not> is_space (last s)" using Cons by (simp_all add: clean_def)
  have "dropWhile is_space (CHR '' '' # s) = s" using h Cons by (simp add: is_space_literals)
  moreover have "dropWhile is_space (rev s) = rev s"
    using l Cons by (intro dropWhile_rev_last) simp_all
  ultimately show ?thesis by (simp add: trim_def)
qed

lemma trim_starts_nonspace: "\<not> is_space c \<Longrightarrow> trim (c # s) \<noteq> []"
proof -
  assume c: "\<not> is_space c"
  have "dropWhile is_space (rev (c # s)) \<noteq> []"
    using c by (simp add: dropWhile_append3 dropWhile_eq_Nil_conv)
  then show ?thesis using c by (simp add: trim_def)
qed

lemma split_lines_acc_line:
  "LF \<notin> set l \<Longrightarrow> split_lines_acc cur (l @ LF # rest) = (rev cur @ l) # split_lines_acc [] rest"
  by (induction l arbitrary: cur) auto

lemma split_lines_line:
  "LF \<notin> set l \<Longrightarrow> split_lines (l @ LF # rest) = l # split_lines rest"
  by (simp add: split_lines_def split_lines_acc_line)


lemma lines_nonblank: "trim (q_line c) \<noteq> []" "trim (a_line c) \<noteq> []"
  by (simp_all add: q_line_def a_line_def trim_starts_nonspace is_space_literals)

lemma lines_no_LF:
  "LF \<notin> set (fc_question c) \<Longrightarrow> LF \<notin> set (q_line c)"
  "LF \<notin> set (fc_answer c) \<Longrightarrow> LF \<notin> set (a_line c)"
  by (simp_all add: q_line_def a_line_def LF_def)

lemma split_lines_render:
  "\<forall>c\<in>set cards. LF \<notin> set (fc_question c) \<and> LF \<notin> set (fc_answer c) \<Longrightarrow>
   split_lines (render_flashcards cards) = concat (map (\<lambda>c. [q_line c, a_line c]) cards) @ [[]]"
proof (induction cards)
  case Nil
  then show ?case by (simp add: render_flashcards_def split_lines_def)
next
  case (Cons c cards)
  have lf: "LF \<notin> set (q_line c)" "LF \<notin> set (a_line c)"
    using Cons.prems by (simp_all add: lines_no_LF)
  have "render_flashcards (c # cards) = q_line c @ LF # a_line c @ LF # render_flashcards cards"
    by (simp add: render_flashcards_def)
  then show ?case
    using Cons by (simp add: split_lines_line [OF lf(1)] split_lines_line [OF lf(2)])
qed

lemma nonblank_render:
  assumes "\<forall>c\<in>set cards. LF \<notin> set (fc_question c) \<and> LF \<notin> set (fc_answer c)"
  shows "nonblank_lines (render_flashcards cards) = concat (map (\<lambda>c. [q_line c, a_line c]) cards)"
proof -
  have "filter (\<lambda>line. trim line \<noteq> []) (concat (map (\<lambda>c. [q_line c, a_line c]) cards))
        = concat (map (\<lambda>c. [q_line c, a_line c]) cards)"
    by (induction cards) (simp_all add: lines_nonblank)
  then show ?thesis
    by (simp add: nonblank_lines_def split_lines_render [OF assms] trim_def)
qed

lemma flashcard_loop_render:
  "\<forall>c\<in>set cards. clean (fc_question c) \<and> clean (fc_answer c) \<Longrightarrow>
   flashcard_loop fs cur (concat (map (\<lambda>c. [q_line c, a_line c]) cards))
     = (if cards = [] then (fs, cur)
        else (fs @ (case cur of None \<Rightarrow> [] | Some q \<Rightarrow> [q]) @ butlast cards, Some (last cards)))"
proof (induction cards arbitrary: fs cur)
  case Nil
  then show ?case by simp
next
  case (Cons c cards)
  have c: "\<lparr>fc_question = fc_question c, fc_answer = fc_answer c\<rparr> = c" by simp
  have "flashcard_loop fs cur (concat (map (\<lambda>c. [q_line c, a_line c]) (c # cards)))
        = flashcard_loop (case cur of None \<Rightarrow> fs | Some q \<Rightarrow> fs @ [q]) (Some c)
            (concat (map (\<lambda>c. [q_line c, a_line c]) cards))"
    using Cons.prems by (simp add: match_q_line match_a_line trim_clean c)
  also have "\<dots> = (if cards = [] then (case cur of None \<Rightarrow> fs | Some q \<Rightarrow> fs @ [q], Some c)
                    else ((case cur of None \<Rightarrow> fs | Some q \<Rightarrow> fs @ [q]) @ [c] @ butlast cards,
                          Some (last cards)))"
    using Cons.prems by (subst Cons.IH) simp_all
  finally show ?case by (cases cur) simp_all
qed

lemma parse_render:
  assumes "cards \<noteq> []"
    and "\<forall>c\<in>set cards. clean (fc_question c) \<and> clean (fc_answer c) \<and> fc_answer c \<noteq> []"
  shows "parseFlashcardsManually (render_flashcards cards) = cards"
proof -
  have lf: "\<forall>c\<in>set cards. LF \<notin> set (fc_question c) \<and> LF \<notin> set (fc_answer c)"
    using assms(2) by (simp add: clean_def)
  have cl: "\<forall>c\<in>set cards. clean (fc_question c) \<and> clean (fc_answer c)"
    using assms(2) by simp
  have "fc_answer (last cards) \<noteq> []" using assms by simp
  then show ?thesis
    using assms(1)
    by (simp add: parseFlashcardsManually_def nonblank_render [OF lf] flashcard_loop_render [OF cl])
qed

text \<open>
  Claim C9. Both fallback parsers are functions of the text alone and have no failing
  branch. The question parser returns the placeholder question. The flashcard parser
  returns a non-empty list; each card in it is the placeholder or carries the trimmed rest
  of a line of the \<open>Q:\<close> pattern; without such a line the result is the placeholder
  alone; and a text that lists clean cards with non-empty answers in the pattern is parsed
  back into exactly these cards.
\<close>

theorem fallback_parsers_never_fail:
  "parseQuestionsManually text = [placeholder_question]
   \<and> parseFlashcardsManually text \<noteq> []
   \<and> (\<forall>c\<in>set (parseFlashcardsManually text).
         c = placeholder_flashcard
         \<or> (\<exists>line\<in>set (nonblank_lines text). \<exists>r. match_Q line = Some r \<and> fc_question c = trim r))
   \<and> ((\<forall>line\<in>set (nonblank_lines text). match_Q line = None)
        \<longrightarrow> parseFlashcardsManually text = [placeholder_flashcard])
   \<and> (cards \<noteq> []
        \<and> (\<forall>c\<in>set cards. clean (fc_question c) \<and> clean (fc_answer c) \<and> fc_answer c \<noteq> [])
        \<longrightarrow> parseFlashcardsManually (render_flashcards cards) = cards)"
proof -
  obtain fs cur where loop: "flashcard_loop [] None (nonblank_lines text) = (fs, cur)"
    by (cases "flashcard_loop [] None (nonblank_lines text)")
  define fs' where "fs' = (case cur of None \<Rightarrow> fs
                           | Some q \<Rightarrow> if fc_answer q \<noteq> [] then fs @ [q] else fs)"
  have res: "parseFlashcardsManually text = (if length fs' > 0 then fs' else [placeholder_flashcard])"
    by (simp add: parseFlashcardsManually_def loop fs'_def)
  have sub: "set fs' \<subseteq> set fs \<union> set_option cur"
    by (auto simp: fs'_def split: option.splits if_splits)
  from flashcard_loop_questions [OF loop]
  have q: "fc_question ` (set fs \<union> set_option cur) \<subseteq> question_lines (nonblank_lines text)"
    by simp
  have origin: "\<exists>line\<in>set (nonblank_lines text). \<exists>r. match_Q line = Some r \<and> fc_question c = trim r"
    if "c \<in> set fs'" for c
  proof -
    from that sub have "fc_question c \<in> fc_question ` (set fs \<union> set_option cur)" by blast
    with q have "fc_question c \<in> question_lines (nonblank_lines text)" by blast
    then show ?thesis unfolding question_lines_def by blast
  qed
  have none: "parseFlashcardsManually text = [placeholder_flashcard]"
    if "\<forall>line\<in>set (nonblank_lines text). match_Q line = None"
    using flashcard_loop_no_question [OF that, of "[]"]
    by (simp add: parseFlashcardsManually_def)
  have a: "parseQuestionsManually text = [placeholder_question]"
    by (simp add: parseQuestionsManually_def)
  have b: "parseFlashcardsManually text \<noteq> []"
    by (simp add: res)
  have c: "\<forall>c\<in>set (parseFlashcardsManually text).
         c = placeholder_flashcard
         \<or> (\<exists>line\<in>set (nonblank_lines text). \<exists>r. match_Q line = Some r \<and> fc_question c = trim r)"
    using origin by (simp add: res)
  have d: "cards \<noteq> []
        \<and> (\<forall>c\<in>set cards. clean (fc_question c) \<and> clean (fc_answer c) \<and> fc_answer c \<noteq> [])
        \<longrightarrow> parseFlashcardsManually (render_flashcards cards) = cards"
    using parse_render by blast
  show ?thesis
    using a b c d none by blast
qed



theorem fallback_parsers_never_fail_witness:
  "parseQuestionsManually ''no pattern here'' = [placeholder_question]
   \<and> parseFlashcardsManually ''no pattern here'' = [placeholder_flashcard]
   \<and> parseFlashcardsManually (render_flashcards [\<lparr>fc_question = ''Why?'', fc_answer = ''So.''\<rparr>])
       = [\<lparr>fc_question = ''Why?'', fc_answer = ''So.''\<rparr>]"
proof -
  have n: "\<forall>line\<in>set (nonblank_lines ''no pattern here''). match_Q line = None"
    by (simp add: nonblank_lines_def split_lines_def LF_def trim_def is_space_def match_Q_def
          lower_ascii_def)
  have c: "[\<lparr>fc_question = ''Why?'', fc_answer = ''So.''\<rparr>] \<noteq> []
           \<and> (\<forall>c\<in>set [\<lparr>fc_question = ''Why?'', fc_answer = ''So.''\<rparr>].
                 clean (fc_question c) \<and> clean (fc_answer c) \<and> fc_answer c \<noteq> [])"
    by (simp add: clean_def LF_def is_space_def)
  from fallback_parsers_never_fail
         [of "''no pattern here''" "[\<lparr>fc_question = ''Why?'', fc_answer = ''So.''\<rparr>]"] n c
  show ?thesis by blast
qed

lemma parseFlashcardsManually_example:
  "parseFlashcardsManually
     (''Intro'' @ [LF] @ ''Q: What is 2+2?'' @ [LF, LF] @ ''answer:  4 '' @ [LF]
       @ ''QUESTION: Why?'' @ [LF] @ ''A: Because.'' @ [LF] @ ''Q: dangling'')
   = [\<lparr>fc_question = ''What is 2+2?'', fc_answer = ''4''\<rparr>,
      \<lparr>fc_question = ''Why?'', fc_answer = ''Because.''\<rparr>]"
  by (simp add: parseFlashcardsManually_def nonblank_lines_def split_lines_def LF_def trim_def
        is_space_def match_Q_def match_A_def lower_ascii_def)

section \<open>Properties of the profile store\<close>

lemma getUserData_saveUserData:
  "getUserData (saveUserData s uid d) uid' = (if uid' = uid then d else getUserData s uid')"
  by (simp add: getUserData_def saveUserData_def)

lemma getCurrentUser_saveUserData:
  "getCurrentUser (saveUserData s uid d) = getCurrentUser s"
  by (simp add: getCurrentUser_def saveUserData_def getAllUsers_def split: option.splits)

lemma findIndex_None: "findIndex p xs = None \<longleftrightarrow> (\<forall>x\<in>set xs. \<not> p x)"
  by (induction xs) (auto split: option.splits)

lemma findIndex_Some:
  "findIndex p xs = Some i \<Longrightarrow> i < length xs \<and> p (xs ! i) \<and> (\<forall>j<i. \<not> p (xs ! j))"
proof (induction xs arbitrary: i)
  case Nil
  then show ?case by simp
next
  case (Cons x xs)
  show ?case
  proof (cases "p x")
    case True
    with Cons.prems show ?thesis by simp
  next
    case False
    with Cons.prems obtain k where k: "findIndex p xs = Some k" "i = Suc k"
      by (auto split: option.splits)
    from Cons.IH [OF k(1)] False k(2) show ?thesis
      by (auto simp: nth_Cons split: nat.splits)
  qed
qed

lemma map_key_update:
  assumes "i < length rs" "f (rs ! i) = f new"
  shows "map f (rs[i := new]) = map f rs"
  using assms by (simp add: map_update list_update_same_conv)

lemma filter_key_distinct:
  "distinct (map f xs) \<Longrightarrow> x \<in> set xs \<Longrightarrow> filter (\<lambda>r. f r = f x) xs = [x]"
proof (induction xs)
  case Nil
  then show ?case by simp
next
  case (Cons y ys)
  show ?case
  proof (cases "x = y")
    case True
    have "filter (\<lambda>r. f r = f y) ys = []"
      using Cons.prems(1) by (auto simp: filter_empty_conv image_iff)
    with True show ?thesis by simp
  next
    case False
    with Cons.prems have "x \<in> set ys" "f y \<noteq> f x" by auto
    with Cons.IH Cons.prems(1) show ?thesis by simp
  qed
qed

text \<open>
  Claim C8. For the current user, saving a quiz result keeps the keys (note, question) of
  the stored results pairwise different: a stored result of the same key is overwritten
  where it stands, a result of a new key is appended, and afterwards exactly one stored
  result has the key of the saved one.
\<close>

theorem saveQuizResult_keeps_results_unique:
  assumes cur: "getCurrentUser s = Some u"
    and uniq: "unique_results (getUserData s (user_id u))"
  shows "let rs = ud_quizResults (getUserData s (user_id u));
             rs' = ud_quizResults (getUserData (saveQuizResult s result now_iso) (user_id u));
             saved = result\<lparr>qr_userId := Some (user_id u), qr_timestamp := Iso now_iso\<rparr>
         in unique_results (getUserData (saveQuizResult s result now_iso) (user_id u))
            \<and> (if result_key result \<in> set (map result_key rs)
                then (\<exists>i<length rs. result_key (rs ! i) = result_key result \<and> rs' = rs[i := saved])
                else rs' = rs @ [saved])
            \<and> length (filter (\<lambda>r. result_key r = result_key result) rs') = 1"
proof -
  let ?rs = "ud_quizResults (getUserData s (user_id u))"
  let ?saved = "result\<lparr>qr_userId := Some (user_id u), qr_timestamp := Iso now_iso\<rparr>"
  let ?P = "\<lambda>r. qr_noteId r = qr_noteId result \<and> qr_questionIndex r = qr_questionIndex result"
  let ?rs' = "ud_quizResults (getUserData (saveQuizResult s result now_iso) (user_id u))"
  have P: "?P r \<longleftrightarrow> result_key r = result_key result" for r
    by (simp add: result_key_def)
  have ks: "result_key ?saved = result_key result" by (simp add: result_key_def)
  have d: "distinct (map result_key ?rs)" using uniq by (simp add: unique_results_def)
  show ?thesis
  proof (cases "findIndex ?P ?rs")
    case None
    then have no: "result_key result \<notin> set (map result_key ?rs)"
      by (auto simp: findIndex_None P)
    have rs': "?rs' = ?rs @ [?saved]"
      using cur None by (simp add: saveQuizResult_def getUserData_saveUserData Let_def)
    have "distinct (map result_key ?rs')" using d no ks by (simp add: rs')
    moreover have "filter (\<lambda>r. result_key r = result_key result) ?rs = []"
      using no by (auto simp: filter_empty_conv image_iff)
    ultimately show ?thesis using no rs' ks
      by (simp add: Let_def unique_results_def)
  next
    case (Some i)
    from findIndex_Some [OF Some] have i: "i < length ?rs" "result_key (?rs ! i) = result_key result"
      by (simp_all add: P)
    then have yes: "result_key result \<in> set (map result_key ?rs)"
      by (metis length_map nth_map nth_mem)
    have rs': "?rs' = ?rs[i := ?saved]"
      using cur Some by (simp add: saveQuizResult_def getUserData_saveUserData Let_def)
    have m: "map result_key ?rs' = map result_key ?rs"
      unfolding rs' using i ks by (intro map_key_update) simp_all
    have d': "distinct (map result_key ?rs')" using d m by simp
    have "?saved \<in> set ?rs'" unfolding rs' using i(1) by (simp add: set_update_memI)
    from filter_key_distinct [OF d' this]
    have "length (filter (\<lambda>r. result_key r = result_key result) ?rs') = 1"
      by (simp only: ks list.size)
    with d' yes i rs' show ?thesis
      by (auto simp: Let_def unique_results_def)
  qed
qed

lemma sample_current: "getCurrentUser (sample_store ns rs) = Some sample_user"
  by (simp add: getCurrentUser_def sample_store_def getAllUsers_def sample_user_def)

theorem saveQuizResult_keeps_results_unique_witness:
  "unique_results
     (getUserData (saveQuizResult (sample_store [] [sample_result 7 0 True, sample_result 7 1 False])
                     (sample_result 7 1 True) ''now'') 1)
   \<and> ud_quizResults
        (getUserData (saveQuizResult (sample_store [] [sample_result 7 0 True, sample_result 7 1 False])
                     (sample_result 7 1 True) ''now'') 1)
      = [sample_result 7 0 True, (sample_result 7 1 True)\<lparr>qr_timestamp := Iso ''now''\<rparr>]"
proof -
  have u: "user_id sample_user = 1" by (simp add: sample_user_def)
  have "unique_results (getUserData (sample_store [] [sample_result 7 0 True, sample_result 7 1 False]) 1)"
    by (simp add: unique_results_def getUserData_def sample_store_def result_key_def sample_result_def)
  from saveQuizResult_keeps_results_unique [OF sample_current, unfolded u, OF this,
         of "sample_result 7 1 True" "''now''"]
  show ?thesis
    by (simp add: Let_def getUserData_def sample_store_def result_key_def sample_result_def
          saveQuizResult_def getCurrentUser_def getAllUsers_def saveUserData_def sample_user_def
          unique_results_def)
qed

text \<open>
  Claim C7. For the current user, deleting a note leaves no note, no quiz result and no
  progress entry of that identifier; the other notes and the other quiz results stay, in
  their order, the progress entries of all other notes, the settings and the profile are
  unchanged, and so are the documents of all other users, the list of users and the
  current user.
\<close>

theorem deleteNoteFromHistory_removes_only_that_note:
  assumes "getCurrentUser s = Some u"
  shows "let d = getUserData s (user_id u);
             s' = deleteNoteFromHistory s noteId;
             d' = getUserData s' (user_id u)
         in (\<forall>n\<in>set (ud_notes d'). note_id n \<noteq> Some noteId)
          \<and> (\<forall>r\<in>set (ud_quizResults d'). qr_noteId r \<noteq> Some noteId)
          \<and> progress_entry d' (Some noteId) = None
          \<and> ud_notes d' = filter (\<lambda>n. note_id n \<noteq> Some noteId) (ud_notes d)
          \<and> ud_quizResults d' = filter (\<lambda>r. qr_noteId r \<noteq> Some noteId) (ud_quizResults d)
          \<and> (\<forall>k. k \<noteq> Some noteId \<longrightarrow> progress_entry d' k = progress_entry d k)
          \<and> ud_settings d' = ud_settings d
          \<and> ud_profile d' = ud_profile d
          \<and> (\<forall>uid. uid \<noteq> user_id u \<longrightarrow> getUserData s' uid = getUserData s uid)
          \<and> st_users s' = st_users s
          \<and> st_currentUser s' = st_currentUser s"
proof -
  define d where "d = getUserData s (user_id u)"
  define d2 where "d2 = d\<lparr>ud_notes := filter (\<lambda>n. note_id n \<noteq> Some noteId) (ud_notes d),
                           ud_quizResults := filter (\<lambda>r. qr_noteId r \<noteq> Some noteId) (ud_quizResults d)\<rparr>"
  define d3 where "d3 = (case ud_quizProgress d of
                           None \<Rightarrow> d2
                         | Some qp \<Rightarrow> d2\<lparr>ud_quizProgress := Some (AList.delete (Some noteId) qp)\<rparr>)"
  have del: "deleteNoteFromHistory s noteId = saveUserData s (user_id u) d3"
  proof (cases "ud_quizProgress d")
    case None
    then show ?thesis
      using assms by (simp add: deleteNoteFromHistory_def Let_def d_def d2_def d3_def)
  next
    case (Some qp)
    have q2: "ud_quizProgress d2 = Some qp" using Some by (simp add: d2_def)
    show ?thesis
    proof (cases "map_of qp (Some noteId) = None")
      case True
      then have "AList.delete (Some noteId) qp = qp"
        by (simp add: map_of_eq_None_iff)
      then have "d2\<lparr>ud_quizProgress := Some (AList.delete (Some noteId) qp)\<rparr> = d2"
        using q2 by simp
      then show ?thesis
        using assms Some True q2
        by (simp add: deleteNoteFromHistory_def Let_def d_def [symmetric] d2_def [symmetric] d3_def)
    next
      case False
      then show ?thesis
        using assms Some q2
        by (simp add: deleteNoteFromHistory_def Let_def d_def [symmetric] d2_def [symmetric] d3_def)
    qed
  qed
  have get: "getUserData (deleteNoteFromHistory s noteId) uid
               = (if uid = user_id u then d3 else getUserData s uid)" for uid
    by (simp add: del getUserData_saveUserData)
  have nts: "ud_notes d3 = filter (\<lambda>n. note_id n \<noteq> Some noteId) (ud_notes d)"
    and res: "ud_quizResults d3 = filter (\<lambda>r. qr_noteId r \<noteq> Some noteId) (ud_quizResults d)"
    and sett: "ud_settings d3 = ud_settings d"
    and prof: "ud_profile d3 = ud_profile d"
    by (simp_all add: d3_def d2_def split: option.splits)
  have prog: "progress_entry d3 k = (if k = Some noteId then None else progress_entry d k)" for k
    by (simp add: d3_def d2_def progress_entry_def delete_conv split: option.splits)
  have frame: "st_users (deleteNoteFromHistory s noteId) = st_users s"
    "st_currentUser (deleteNoteFromHistory s noteId) = st_currentUser s"
    by (simp_all add: del saveUserData_def)
  show ?thesis
    unfolding Let_def get d_def [symmetric]
    by (simp add: nts res sett prof prog frame)
qed

text \<open>Without a current user the function returns at once and the store stays as it is.\<close>

lemma deleteNoteFromHistory_without_user:
  "getCurrentUser s = None \<Longrightarrow> deleteNoteFromHistory s noteId = s"
  by (simp add: deleteNoteFromHistory_def)

theorem deleteNoteFromHistory_removes_only_that_note_witness:
  "let s' = deleteNoteFromHistory
              (sample_store [sample_note 8, sample_note 7]
                 [sample_result 7 0 True, sample_result 8 0 False, sample_result 7 1 False]) 7;
       d' = getUserData s' 1
   in ud_notes d' = [sample_note 8]
    \<and> ud_quizResults d' = [sample_result 8 0 False]
    \<and> progress_entry d' (Some 7) = None
    \<and> progress_entry d' (Some 8) = Some sample_progress"
proof -
  have u: "user_id sample_user = 1" by (simp add: sample_user_def)
  from deleteNoteFromHistory_removes_only_that_note [OF sample_current, unfolded u,
         of "[sample_note 8, sample_note 7]"
            "[sample_result 7 0 True, sample_result 8 0 False, sample_result 7 1 False]" 7]
  show ?thesis
    by (simp add: Let_def getUserData_def sample_store_def sample_result_def sample_note_def
          progress_entry_def deleteNoteFromHistory_def getCurrentUser_def getAllUsers_def
          saveUserData_def sample_user_def)
qed

text \<open>
  Claim C10. For the current user, saving a note succeeds, stamps the note with the
  identifier, the user and the creation time, and stores it at index 0 followed by the 49
  first notes of the old list in their order. The stored list never has more than 50
  notes, and when the old list had 50 the last of them, the oldest, is gone.
\<close>

theorem saveNoteToHistory_keeps_newest_fifty:
  assumes "getCurrentUser s = Some u"
  shows "\<exists>n' s'. saveNoteToHistory s n now_ms now_iso = Inr (n', s')
           \<and> n' = n\<lparr>note_id := Some now_ms, note_userId := Some (user_id u),
                     note_createdAt := now_iso\<rparr>
           \<and> (let old = ud_notes (getUserData s (user_id u));
                   new = ud_notes (getUserData s' (user_id u))
               in new = n' # take 49 old
                \<and> length new \<le> 50
                \<and> (length old \<ge> 50 \<longrightarrow> length new = 50)
                \<and> (length old = 50 \<longrightarrow> new = n' # butlast old))"
proof -
  have "length old = 50 \<Longrightarrow> take 49 old = butlast old" for old :: "note_record list"
    by (simp add: butlast_conv_take)
  then show ?thesis
    using assms
    by (auto simp add: saveNoteToHistory_def getUserData_saveUserData Let_def take_Cons')
qed


theorem saveNoteToHistory_keeps_newest_fifty_witness:
  "\<exists>s'. saveNoteToHistory (sample_store (map sample_note (rev [1..<51])) []) (sample_note 0)
            99 ''now''
          = Inr ((sample_note 0)\<lparr>note_id := Some 99, note_createdAt := ''now''\<rparr>, s')
        \<and> ud_notes (getUserData s' 1)
            = (sample_note 0)\<lparr>note_id := Some 99, note_createdAt := ''now''\<rparr>
              # map sample_note (rev [2..<51])
        \<and> length (ud_notes (getUserData s' 1)) = 50"
proof -
  have u: "user_id sample_user = 1" by (simp add: sample_user_def)
  have old: "ud_notes (getUserData (sample_store (map sample_note (rev [1..<51])) []) 1)
             = map sample_note (rev [1..<51])"
    by (simp add: getUserData_def sample_store_def)
  have b: "butlast (map sample_note (rev [1..<51])) = map sample_note (rev [2..<51])"
    by (simp only: map_butlast [symmetric] butlast_rev tl_upt Suc_1)
  have n: "(sample_note 0)\<lparr>note_id := Some 99, note_userId := Some 1, note_createdAt := ''now''\<rparr>
           = (sample_note 0)\<lparr>note_id := Some 99, note_createdAt := ''now''\<rparr>"
    by (simp add: sample_note_def)
  from saveNoteToHistory_keeps_newest_fifty [OF sample_current, unfolded u old Let_def,
         of "map sample_note (rev [1..<51])" "[]" "sample_note 0" 99 "''now''"]
  show ?thesis
    unfolding old b n by (auto simp del: upt_Suc)
qed

section \<open>Properties of the scoring\<close>

lemma find_after_replace:
  assumes "P new"
  shows "find P (case findIndex P rs of Some i \<Rightarrow> rs[i := new] | None \<Rightarrow> rs @ [new]) = Some new"
  using assms
proof (induction rs)
  case Nil
  then show ?case by simp
next
  case (Cons r rs)
  then show ?case by (cases "findIndex P rs") auto
qed

lemma saveQuizResult_results:
  assumes "getCurrentUser s = Some u"
  shows "ud_quizResults (getUserData (saveQuizResult s r now_iso) (user_id u))
         = (let rs = ud_quizResults (getUserData s (user_id u));
                saved = r\<lparr>qr_userId := Some (user_id u), qr_timestamp := Iso now_iso\<rparr>
            in case findIndex (\<lambda>x. qr_noteId x = qr_noteId r \<and> qr_questionIndex x = qr_questionIndex r) rs of
                 Some i \<Rightarrow> rs[i := saved] | None \<Rightarrow> rs @ [saved])"
  using assms
  by (simp add: saveQuizResult_def getUserData_saveUserData Let_def split: option.splits)

lemma saveQuizProgress_results:
  "ud_quizResults (getUserData (saveQuizProgress s k p now_iso) uid)
   = ud_quizResults (getUserData s uid)"
  by (simp add: saveQuizProgress_def getUserData_saveUserData Let_def split: option.splits)

text \<open>
  Claim C6. For a question of the note, showing the answer succeeds; the score is +1 when
  the selected option equals the correct option and -1 otherwise, and the flag is true in
  exactly the first case. This score is recorded for the question in the component state,
  and for a current user it is the score of the result stored under the note and question,
  together with the flag and both options.
\<close>

theorem handleShowAnswer_scores_plus_or_minus_one:
  assumes "questionIndex < length (note_questions notesData)"
  shows "\<exists>cs' s'.
           handleShowAnswer notesData cs s now_ms now_iso questionIndex = Inr (cs', s')
           \<and> (let userAnswer = map_of (selectedAnswers cs) questionIndex;
                   correct = q_correct (note_questions notesData ! questionIndex);
                   delta = (if userAnswer = correct then 1 else - 1)
               in score_answer userAnswer correct = (delta, userAnswer = correct)
                \<and> map_of (questionScores cs') questionIndex = Some delta
                \<and> map_of (showAnswers cs') questionIndex = Some True
                \<and> (\<forall>u. getCurrentUser s = Some u \<longrightarrow>
                      (\<exists>r. find (\<lambda>r. result_key r = (note_id notesData, questionIndex))
                              (ud_quizResults (getUserData s' (user_id u))) = Some r
                           \<and> qr_score r = delta
                           \<and> qr_isCorrect r = (userAnswer = correct)
                           \<and> qr_userAnswer r = userAnswer
                           \<and> qr_correctAnswer r = correct)))"
proof -
  let ?q = "note_questions notesData ! questionIndex"
  let ?ua = "map_of (selectedAnswers cs) questionIndex"
  let ?delta = "if ?ua = q_correct ?q then 1 else - 1 :: int"
  let ?data = "\<lparr>qr_noteId = note_id notesData, qr_noteTitle = note_title notesData,
                  qr_noteSubject = note_subject notesData, qr_questionIndex = questionIndex,
                  qr_questionType = q_type ?q, qr_question = q_question ?q,
                  qr_userAnswer = ?ua, qr_correctAnswer = q_correct ?q,
                  qr_isCorrect = (?ua = q_correct ?q), qr_score = ?delta, qr_timestamp = Millis now_ms,
                  qr_userId = None\<rparr>"
  have sc: "score_answer ?ua (q_correct ?q) = (?delta, ?ua = q_correct ?q)"
    by (simp add: score_answer_def)
  obtain cs' s' where run: "handleShowAnswer notesData cs s now_ms now_iso questionIndex = Inr (cs', s')"
    and cs': "cs' = cs\<lparr>showAnswers := AList.update questionIndex True (showAnswers cs),
                        questionScores := AList.update questionIndex ?delta (questionScores cs),
                        allQuestionsChecked :=
                          (length (AList.update questionIndex True (showAnswers cs))
                           = length (note_questions notesData))\<rparr>"
    and res: "\<And>uid. ud_quizResults (getUserData s' uid)
                    = ud_quizResults (getUserData (saveQuizResult s ?data now_iso) uid)"
    using assms
    by (simp add: handleShowAnswer_def js_nth_def Let_def sc saveQuizProgress_results)
  have stored: "\<exists>r. find (\<lambda>r. result_key r = (note_id notesData, questionIndex))
                     (ud_quizResults (getUserData s' (user_id u))) = Some r
                   \<and> qr_score r = ?delta \<and> qr_isCorrect r = (?ua = q_correct ?q)
                   \<and> qr_userAnswer r = ?ua \<and> qr_correctAnswer r = q_correct ?q"
    if cur: "getCurrentUser s = Some u" for u
  proof -
    let ?saved = "?data\<lparr>qr_userId := Some (user_id u), qr_timestamp := Iso now_iso\<rparr>"
    have P: "(\<lambda>r. result_key r = (note_id notesData, questionIndex))
             = (\<lambda>x. qr_noteId x = qr_noteId ?data \<and> qr_questionIndex x = qr_questionIndex ?data)"
      by (auto simp: result_key_def fun_eq_iff)
    have "find (\<lambda>r. result_key r = (note_id notesData, questionIndex))
            (ud_quizResults (getUserData s' (user_id u))) = Some ?saved"
      unfolding res saveQuizResult_results [OF cur] Let_def P
      by (rule find_after_replace) simp
    then show ?thesis by simp
  qed
  show ?thesis
    using run sc stored by (simp add: cs' Let_def update_conv')
qed

theorem handleShowAnswer_scores_plus_or_minus_one_witness:
  "\<exists>cs' s'.
     handleShowAnswer (sample_note 7)
       \<lparr>selectedAnswers = [(0, ''A''), (1, ''C'')], showAnswers = [(0, True)],
        questionScores = [(0, 1)], allQuestionsChecked = False\<rparr>
       (sample_store [sample_note 7] [sample_result 7 0 True]) 5 ''now'' 1 = Inr (cs', s')
     \<and> questionScores cs' = [(0, 1), (1, - 1)]
     \<and> allQuestionsChecked cs'
     \<and> map (\<lambda>r. (qr_questionIndex r, qr_score r, qr_isCorrect r))
          (ud_quizResults (getUserData s' 1)) = [(0, 1, True), (1, - 1, False)]"
  using handleShowAnswer_scores_plus_or_minus_one
    [of 1 "sample_note 7"
        "\<lparr>selectedAnswers = [(0, ''A''), (1, ''C'')], showAnswers = [(0, True)],
          questionScores = [(0, 1)], allQuestionsChecked = False\<rparr>"
        "sample_store [sample_note 7] [sample_result 7 0 True]" 5 "''now''"]
  by (simp add: handleShowAnswer_def js_nth_def sample_note_def sample_question_def
        score_answer_def Let_def saveQuizResult_def saveQuizProgress_def getCurrentUser_def
        getAllUsers_def sample_store_def sample_user_def getUserData_def saveUserData_def
        sample_result_def)


section \<open>Properties of the dashboard statistics\<close>

lemma tally_sum:
  "tally (t, a, c, i) rs =
     (t + sum_list (map qr_score rs), a + length rs, c + length (filter qr_isCorrect rs),
      i + length (filter (\<lambda>r. \<not> qr_isCorrect r) rs))"
  by (induction rs arbitrary: t a c i) simp_all

lemma foldl_score: "foldl (\<lambda>t r. t + qr_score r) a rs = a + sum_list (map qr_score rs)"
  by (induction rs arbitrary: a) simp_all

lemma score_sum_bounds:
  "\<forall>r\<in>set rs. qr_score r = 1 \<or> qr_score r = - 1 \<Longrightarrow>
   - int (length rs) \<le> sum_list (map qr_score rs) \<and> sum_list (map qr_score rs) \<le> int (length rs)"
  by (induction rs) auto

lemma one_less_two53: "1 < two53" "100 < two53"
  by (simp_all add: two53_def)

lemma percentage_props:
  assumes "0 < N" and "- int N \<le> S" and "S \<le> int N"
  shows "\<exists>m::nat. percentage S N = real m / 10"
    and "\<bar>percentage S N - spec_percentage S N\<bar> \<le> 1 / 20 + 200 / 2 ^ 53"
    and "0 \<le> percentage S N" and "percentage S N \<le> 100"
proof -
  define ka where "ka = nat (S + int N)"
  have k: "0 \<le> S + int N" "\<bar>S + int N\<bar> = int ka" using assms(2) by (simp_all add: ka_def)
  have ka: "ka \<le> 1 * (2 * N)" using assms(3) by (simp add: ka_def)
  obtain n1 d1 where r1: "double_ratio ka (2 * N) = (n1, d1)" by (cases "double_ratio ka (2 * N)")
  obtain n2 d2 where r2: "double_ratio (n1 * 100) d1 = (n2, d2)"
    by (cases "double_ratio (n1 * 100) d1")
  have N2: "0 < 2 * N" using assms(1) by simp
  note p1 = double_ratio_props [OF N2 r1]
  note p2 = double_ratio_props [OF p1(1) r2]
  have n1: "n1 \<le> d1" using p1(3) [OF one_less_two53(1) ka] by simp
  then have "n1 * 100 \<le> 100 * d1" by simp
  from p2(3) [OF one_less_two53(2) this] have n2: "n2 \<le> 100 * d2" .
  have p: "percentage S N = real (tenths n2 d2) / 10"
    using assms(1) k(1) by (simp add: percentage_def Let_def k(2) ka_def [symmetric] r1 r2)
  show "\<exists>m::nat. percentage S N = real m / 10" using p by blast
  show "0 \<le> percentage S N" by (simp add: p)
  have "real (tenths n2 d2) \<le> 1000"
    using tenths_props(2) [OF p2(1) n2] by (metis of_nat_le_iff of_nat_numeral)
  then show "percentage S N \<le> 100" by (simp add: p)
  define r q1 q2 where "r = real ka / real (2 * N)" and "q1 = real n1 / real d1"
    and "q2 = real n2 / real d2"
  have D1: "0 < real d1" using p1(1) by simp
  have r01: "0 \<le> r" "r \<le> 1"
    using ka N2 by (simp_all add: r_def)
  have q101: "0 \<le> q1" "q1 \<le> 1"
    using n1 D1 by (simp_all add: q1_def)
  have e1: "\<bar>q1 - r\<bar> \<le> r / 2 ^ 53" using p1(2) by (simp only: q1_def r_def)
  have "real (n1 * 100) / real d1 = 100 * q1" by (simp add: q1_def)
  with p2(2) have e2: "\<bar>q2 - 100 * q1\<bar> \<le> (100 * q1) / 2 ^ 53" by (simp only: q2_def)
  have e3: "\<bar>real (tenths n2 d2) / 10 - q2\<bar> \<le> 1 / 20"
    unfolding q2_def by (rule tenths_props(1) [OF p2(1)])
  have "r / 2 ^ 53 \<le> 1 / 2 ^ 53" using r01 by (simp add: divide_right_mono)
  with e1 have b1: "\<bar>q1 - r\<bar> \<le> 1 / 2 ^ 53" by linarith
  have "(100 * q1) / 2 ^ 53 \<le> 100 / 2 ^ 53" using q101 by (simp add: divide_right_mono)
  with e2 have b2: "\<bar>q2 - 100 * q1\<bar> \<le> 100 / 2 ^ 53" by linarith
  have sp: "spec_percentage S N = 100 * r"
  proof -
    have "real_of_int S + real N = real ka"
      using k(1) by (simp add: ka_def) 
    then show ?thesis by (simp add: spec_percentage_def r_def)
  qed
  show "\<bar>percentage S N - spec_percentage S N\<bar> \<le> 1 / 20 + 200 / 2 ^ 53"
    unfolding p sp using e3 b1 b2 by linarith
qed

lemma calculateStats_fields:
  "averageScore (calculateStats ns rs) = percentage (sum_list (map qr_score rs)) (length rs)"
  "totalMarks (calculateStats ns rs) = sum_list (map qr_score rs)"
  "questionsAttempted (calculateStats ns rs) = length rs"
  "correctAnswers (calculateStats ns rs) = length (filter qr_isCorrect rs)"
  "incorrectAnswers (calculateStats ns rs) = length (filter (\<lambda>r. \<not> qr_isCorrect r) rs)"
  by (simp_all add: calculateStats_def tally_sum)

text \<open>
  Claim C5, as the code has it. For quiz results whose scores are +1 or -1, the average
  score of the dashboard is 0 without results; otherwise it is the specification's formula
  computed in doubles and rounded to one decimal place: a multiple of one tenth that
  differs from the exact formula by at most one twentieth plus the rounding error of the
  two double operations, which is below \<open>200 / 2^53\<close>. It lies between 0 and 100. The
  performance of one note is \<open>null\<close> exactly when the note has no results, and otherwise
  carries the note's count, score and the same rounded percentage over the note's results.
  Score 0, 4 and -4 over 4 questions give 50, 100 and 0, no question gives 0, and score 2
  over 80 questions, where the formula is 51.25, gives 51.2.
\<close>

theorem dashboard_percentage_rounds_the_formula:
  assumes "\<forall>r\<in>set rs. qr_score r = 1 \<or> qr_score r = - 1"
  shows "(rs = [] \<longrightarrow> averageScore (calculateStats ns rs) = 0)
         \<and> (rs \<noteq> [] \<longrightarrow>
               \<bar>averageScore (calculateStats ns rs)
                  - spec_percentage (sum_list (map qr_score rs)) (length rs)\<bar>
                 \<le> 1 / 20 + 200 / 2 ^ 53)
         \<and> (\<exists>m::nat. averageScore (calculateStats ns rs) = real m / 10)
         \<and> 0 \<le> averageScore (calculateStats ns rs)
         \<and> averageScore (calculateStats ns rs) \<le> 100
         \<and> (filter (\<lambda>r. qr_noteId r = noteId) rs = [] \<longrightarrow> getNotePerformance rs noteId = None)
         \<and> (filter (\<lambda>r. qr_noteId r = noteId) rs \<noteq> [] \<longrightarrow>
               (\<exists>perf. getNotePerformance rs noteId = Some perf
                  \<and> np_attempted perf = length (filter (\<lambda>r. qr_noteId r = noteId) rs)
                  \<and> np_score perf = sum_list (map qr_score (filter (\<lambda>r. qr_noteId r = noteId) rs))
                  \<and> \<bar>np_percentage perf
                       - spec_percentage
                           (sum_list (map qr_score (filter (\<lambda>r. qr_noteId r = noteId) rs)))
                           (length (filter (\<lambda>r. qr_noteId r = noteId) rs))\<bar>
                      \<le> 1 / 20 + 200 / 2 ^ 53
                  \<and> (\<exists>m::nat. np_percentage perf = real m / 10)
                  \<and> 0 \<le> np_percentage perf \<and> np_percentage perf \<le> 100))
         \<and> percentage 0 4 = 50 \<and> percentage 4 4 = 100 \<and> percentage (- 4) 4 = 0
         \<and> percentage S 0 = 0 \<and> percentage 2 80 = 512 / 10"
proof -
  have empty: "rs = [] \<longrightarrow> averageScore (calculateStats ns rs) = 0"
    by (simp add: calculateStats_fields percentage_def)
  have stats: "(rs \<noteq> [] \<longrightarrow>
                 \<bar>averageScore (calculateStats ns rs)
                    - spec_percentage (sum_list (map qr_score rs)) (length rs)\<bar>
                   \<le> 1 / 20 + 200 / 2 ^ 53)
               \<and> (\<exists>m::nat. averageScore (calculateStats ns rs) = real m / 10)
               \<and> 0 \<le> averageScore (calculateStats ns rs)
               \<and> averageScore (calculateStats ns rs) \<le> 100"
  proof (cases "rs = []")
    case True
    have "averageScore (calculateStats ns rs) = real 0 / 10"
      using True by (simp add: calculateStats_fields percentage_def)
    then have "\<exists>m::nat. averageScore (calculateStats ns rs) = real m / 10" by blast
    then show ?thesis using True by (simp add: calculateStats_fields percentage_def)
  next
    case False
    then have N: "0 < length rs" by simp
    from score_sum_bounds [OF assms]
    have b: "- int (length rs) \<le> sum_list (map qr_score rs)"
      "sum_list (map qr_score rs) \<le> int (length rs)" by simp_all
    from percentage_props [OF N b]
    show ?thesis unfolding calculateStats_fields by blast
  qed
  let ?nr = "filter (\<lambda>r. qr_noteId r = noteId) rs"
  have none: "?nr = [] \<longrightarrow> getNotePerformance rs noteId = None"
    by (simp add: getNotePerformance_def)
  have some: "?nr \<noteq> [] \<longrightarrow>
               (\<exists>perf. getNotePerformance rs noteId = Some perf
                  \<and> np_attempted perf = length ?nr
                  \<and> np_score perf = sum_list (map qr_score ?nr)
                  \<and> \<bar>np_percentage perf
                       - spec_percentage (sum_list (map qr_score ?nr)) (length ?nr)\<bar>
                      \<le> 1 / 20 + 200 / 2 ^ 53
                  \<and> (\<exists>m::nat. np_percentage perf = real m / 10)
                  \<and> 0 \<le> np_percentage perf \<and> np_percentage perf \<le> 100)"
  proof
    assume ne: "?nr \<noteq> []"
    then have N: "0 < length ?nr" by simp
    have "\<forall>r\<in>set ?nr. qr_score r = 1 \<or> qr_score r = - 1" using assms by simp
    from score_sum_bounds [OF this]
    have b: "- int (length ?nr) \<le> sum_list (map qr_score ?nr)"
      "sum_list (map qr_score ?nr) \<le> int (length ?nr)" by simp_all
    note pp = percentage_props [OF N b]
    define perf where
      "perf = \<lparr>np_score = sum_list (map qr_score ?nr), np_attempted = length ?nr,
               np_correct = length (filter qr_isCorrect ?nr),
               np_percentage = percentage (sum_list (map qr_score ?nr)) (length ?nr)\<rparr>"
    have g: "getNotePerformance rs noteId = Some perf"
      using ne by (simp add: getNotePerformance_def Let_def foldl_score perf_def)
    have f: "np_attempted perf = length ?nr" "np_score perf = sum_list (map qr_score ?nr)"
      "np_percentage perf = percentage (sum_list (map qr_score ?nr)) (length ?nr)"
      by (simp_all add: perf_def)
    show "\<exists>perf. getNotePerformance rs noteId = Some perf
            \<and> np_attempted perf = length ?nr
            \<and> np_score perf = sum_list (map qr_score ?nr)
            \<and> \<bar>np_percentage perf
                 - spec_percentage (sum_list (map qr_score ?nr)) (length ?nr)\<bar>
                \<le> 1 / 20 + 200 / 2 ^ 53
            \<and> (\<exists>m::nat. np_percentage perf = real m / 10)
            \<and> 0 \<le> np_percentage perf \<and> np_percentage perf \<le> 100"
      using g pp unfolding f(3) [symmetric] f(1,2) [symmetric] by (intro exI [of _ perf]) (simp add: f)
  qed
  have inst: "percentage 0 4 = 50 \<and> percentage 4 4 = 100 \<and> percentage (- 4) 4 = 0
              \<and> percentage S 0 = 0 \<and> percentage 2 80 = 512 / 10"
    by (simp add: percentage_def tenths_def double_eval)
  from empty stats none some inst show ?thesis by blast
qed

theorem dashboard_percentage_rounds_the_formula_witness:
  "averageScore
     (calculateStats []
        [sample_result 7 0 True, sample_result 7 1 True, sample_result 7 2 False,
         sample_result 8 0 False]) = 50
   \<and> map_option np_percentage
         (getNotePerformance
            [sample_result 7 0 True, sample_result 7 1 True, sample_result 7 2 False,
             sample_result 8 0 False] (Some 7)) = Some (667 / 10)
   \<and> map_option np_attempted
         (getNotePerformance
            [sample_result 7 0 True, sample_result 7 1 True, sample_result 7 2 False,
             sample_result 8 0 False] (Some 7)) = Some 3
   \<and> getNotePerformance
         [sample_result 7 0 True, sample_result 7 1 True, sample_result 7 2 False,
          sample_result 8 0 False] (Some 9) = None"
proof -
  have h: "\<forall>r\<in>set [sample_result 7 0 True, sample_result 7 1 True, sample_result 7 2 False,
                      sample_result 8 0 False]. qr_score r = 1 \<or> qr_score r = - 1"
    by (simp add: sample_result_def)
  have a: "averageScore
             (calculateStats []
                [sample_result 7 0 True, sample_result 7 1 True, sample_result 7 2 False,
                 sample_result 8 0 False]) = 50"
    by (simp add: calculateStats_fields sample_result_def percentage_def tenths_def double_eval)
  have "percentage 1 3 = 667 / 10"
    by (simp add: percentage_def tenths_def double_eval)
  then have p: "percentage 1 (Suc (Suc (Suc 0))) = 667 / 10"
    by (simp only: numeral_3_eq_3)
  have b: "map_option np_percentage
             (getNotePerformance
                [sample_result 7 0 True, sample_result 7 1 True, sample_result 7 2 False,
                 sample_result 8 0 False] (Some 7)) = Some (667 / 10)
           \<and> map_option np_attempted
               (getNotePerformance
                  [sample_result 7 0 True, sample_result 7 1 True, sample_result 7 2 False,
                   sample_result 8 0 False] (Some 7)) = Some 3"
    by (simp add: getNotePerformance_def Let_def sample_result_def p)
  from dashboard_percentage_rounds_the_formula [OF h, where noteId = "Some 9" and ns = "[]" and S = 0]
  have c: "getNotePerformance
         [sample_result 7 0 True, sample_result 7 1 True, sample_result 7 2 False,
          sample_result 8 0 False] (Some 9) = None"
    by (simp add: sample_result_def)
  from a b c show ?thesis by blast
qed

text \<open>
  Claim C5, as stated, fails: two right answers and one wrong answer have the formula value
  200/3, and the dashboard computes 66.7.
\<close>

theorem dashboard_percentage_counterexample:
  "averageScore
     (calculateStats [] [sample_result 7 0 True, sample_result 7 1 True, sample_result 7 2 False])
     = 667 / 10
   \<and> spec_percentage
         (sum_list (map qr_score
            [sample_result 7 0 True, sample_result 7 1 True, sample_result 7 2 False]))
         (length [sample_result 7 0 True, sample_result 7 1 True, sample_result 7 2 False])
       = 200 / 3
   \<and> averageScore
         (calculateStats [] [sample_result 7 0 True, sample_result 7 1 True, sample_result 7 2 False])
       \<noteq> spec_percentage
           (sum_list (map qr_score
              [sample_result 7 0 True, sample_result 7 1 True, sample_result 7 2 False]))
           (length [sample_result 7 0 True, sample_result 7 1 True, sample_result 7 2 False])"
proof -
  have "percentage 1 3 = 667 / 10"
    by (simp add: percentage_def tenths_def double_eval)
  then have p: "percentage 1 (Suc (Suc (Suc 0))) = 667 / 10"
    by (simp only: numeral_3_eq_3)
  show ?thesis
    by (simp add: calculateStats_fields sample_result_def p spec_percentage_def)
qed

section \<open>Properties of the chunking\<close>

lemma js_slice_inside:
  "0 \<le> s \<Longrightarrow> s \<le> e \<Longrightarrow> e \<le> int (length xs) \<Longrightarrow>
   js_slice xs s e = take (nat (e - s)) (drop (nat s) xs)"
  by (simp add: js_slice_def Let_def min_def)

lemma chunk_loop_two_chunks:
  assumes "ov < maxWords" and "length words = Suc maxWords"
  shows "chunk_loop words maxWords ov 0 []
           = Some [join_space (take maxWords words), join_space (drop (maxWords - ov) words)]"
proof -
  let ?len = "int (length words)"
  have len: "?len = int maxWords + 1" using assms(2) by simp
  have first: "js_slice words 0 (int maxWords) = take maxWords words"
    using len by (simp add: js_slice_inside)
  have second: "js_slice words (int maxWords - int ov) (int maxWords + 1) = drop (maxWords - ov) words"
    using len assms by (simp add: js_slice_inside nat_diff_distrib')
  have e1: "min (int maxWords) ?len = int maxWords" using len by simp
  have e2: "min (int maxWords - int ov + int maxWords) (int maxWords + 1) = int maxWords + 1"
    using assms(1) by simp
  have "chunk_loop words maxWords ov 0 []
        = chunk_loop words maxWords ov (int maxWords - int ov) [join_space (take maxWords words)]"
    by (subst chunk_loop.simps) (use len in \<open>simp add: Let_def e1 first\<close>)
  also have "\<dots> = Some [join_space (take maxWords words), join_space (drop (maxWords - ov) words)]"
    by (subst chunk_loop.simps) (use len assms(1) in \<open>simp add: Let_def e2 second\<close>)
  finally show ?thesis .
qed

text \<open>
  Claim C4. With chunk size 1500 and overlap 25 percent the overlap is 375 words. A text of
  at most 1500 words yields one chunk, the normalised text. A text of exactly 1501 words
  yields two chunks: the first 1500 words, and the words from index 1500 - 375 on.
\<close>

theorem chunkText_default_one_or_two_chunks:
  "overlap_words 1500 25 = 375
   \<and> (length (split_ws (normalizeText text)) \<le> 1500
        \<longrightarrow> chunkText text 1500 25 = Some [normalizeText text])
   \<and> (length (split_ws (normalizeText text)) = 1501
        \<longrightarrow> chunkText text 1500 25
              = Some [join_space (take 1500 (split_ws (normalizeText text))),
                      join_space (drop (1500 - 375) (split_ws (normalizeText text)))])"
proof -
  have ov: "overlap_words 1500 25 = 375" by (simp add: overlap_words_def double_eval)
  have one: "chunkText text 1500 25 = Some [normalizeText text]"
    if "length (split_ws (normalizeText text)) \<le> 1500"
    using that by (simp add: chunkText_def Let_def)
  have two: "chunkText text 1500 25
              = Some [join_space (take 1500 (split_ws (normalizeText text))),
                      join_space (drop (1500 - 375) (split_ws (normalizeText text)))]"
    if l: "length (split_ws (normalizeText text)) = 1501"
  proof -
    have "length (split_ws (normalizeText text)) = Suc 1500" using l by simp
    from chunk_loop_two_chunks [OF _ this, of 375]
    show ?thesis using l by (simp add: chunkText_def Let_def ov)
  qed
  from ov one two show ?thesis by blast
qed

lemma repeated_words_Suc: "repeated_words (Suc n) = CHR ''a'' # CHR '' '' # repeated_words n"
  by (simp add: repeated_words_def)

lemma repeated_words_0: "repeated_words 0 = ''a''"
  by (simp add: repeated_words_def)

lemma repeated_words_hd: "\<exists>rest. repeated_words n = CHR ''a'' # rest"
  by (cases n) (simp_all add: repeated_words_Suc repeated_words_0)

lemma repeated_words_last: "last (repeated_words n) = CHR ''a''"
  by (simp add: repeated_words_def)

lemma repeated_words_set: "set (repeated_words n) \<subseteq> {CHR ''a'', CHR '' ''}"
  by (induction n) (auto simp: repeated_words_Suc repeated_words_0)

lemma replace_crlf_id: "CR \<notin> set s \<Longrightarrow> replace_crlf s = s"
  by (induction s rule: replace_crlf.induct) auto

lemma collapse_newlines_id: "LF \<notin> set s \<Longrightarrow> collapse_newlines s = s"
  by (induction s) auto

lemma collapse_blanks_repeated: "collapse_blanks (repeated_words n) = repeated_words n"
proof (induction n)
  case 0
  then show ?case by (simp add: repeated_words_0 SPACE_def TAB_def)
next
  case (Suc n)
  obtain rest where r: "repeated_words n = CHR ''a'' # rest"
    using repeated_words_hd by blast
  have "dropWhile (\<lambda>d. d = SPACE \<or> d = TAB) (repeated_words n) = repeated_words n"
    by (simp add: r SPACE_def TAB_def)
  with Suc show ?case by (simp add: repeated_words_Suc SPACE_def TAB_def)
qed

lemma trim_repeated: "trim (repeated_words n) = repeated_words n"
proof -
  obtain rest where r: "repeated_words n = CHR ''a'' # rest"
    using repeated_words_hd by blast
  have a: "\<not> is_space (CHR ''a'')" by (simp add: is_space_def)
  have "dropWhile is_space (repeated_words n) = repeated_words n" by (simp add: r a)
  moreover have "dropWhile is_space (rev (repeated_words n)) = rev (repeated_words n)"
    by (rule dropWhile_rev_last) (simp_all add: r [symmetric] repeated_words_last a, simp add: r)
  ultimately show ?thesis by (simp add: trim_def)
qed

lemma normalizeText_repeated: "normalizeText (repeated_words n) = repeated_words n"
proof -
  have "CR \<notin> set (repeated_words n)" "LF \<notin> set (repeated_words n)"
    using repeated_words_set [of n] by (auto simp: CR_def LF_def)
  then show ?thesis
    by (simp add: normalizeText_def replace_crlf_id collapse_newlines_id collapse_blanks_repeated
          trim_repeated)
qed

lemma split_ws_acc_repeated: "split_ws_acc b [] (repeated_words n) = replicate (Suc n) ''a''"
  by (induction n arbitrary: b) (simp_all add: repeated_words_Suc repeated_words_0 is_space_def)

lemma split_ws_repeated: "split_ws (repeated_words n) = replicate (Suc n) ''a''"
  by (simp add: split_ws_def split_ws_acc_repeated)

theorem chunkText_default_one_or_two_chunks_witness:
  "chunkText ''one  two'' 1500 25 = Some [''one two'']
   \<and> chunkText (repeated_words 1500) 1500 25
       = Some [join_space (replicate 1500 ''a''), join_space (replicate 376 ''a'')]"
proof -
  have n1: "normalizeText ''one  two'' = ''one two''"
    by (simp add: normalizeText_def CR_def LF_def SPACE_def TAB_def trim_def is_space_def)
  have s1: "length (split_ws (normalizeText ''one  two'')) \<le> 1500"
    by (simp add: n1 split_ws_def is_space_def)
  have s2: "length (split_ws (normalizeText (repeated_words 1500))) = 1501"
    by (simp add: normalizeText_repeated split_ws_repeated)
  from chunkText_default_one_or_two_chunks [of "''one  two''"] s1
  have a: "chunkText ''one  two'' 1500 25 = Some [''one two'']" by (simp only: n1) 
  from chunkText_default_one_or_two_chunks [of "repeated_words 1500"] s2
  have "chunkText (repeated_words 1500) 1500 25
        = Some [join_space (take 1500 (split_ws (normalizeText (repeated_words 1500)))),
                join_space (drop (1500 - 375) (split_ws (normalizeText (repeated_words 1500))))]"
    by blast
  then have b: "chunkText (repeated_words 1500) 1500 25
       = Some [join_space (replicate 1500 ''a''), join_space (replicate 376 ''a'')]"
    by (simp add: normalizeText_repeated split_ws_repeated)
  from a b show ?thesis by blast
qed

end
